theory Spec2Isabelle
  imports Main "HOL-Library.Word"
begin

unbundle bit_operations_syntax

section \<open>Interrupt-based logic analyzer: Core/Src/main.c\<close>

text \<open>
  The firmware has two execution contexts over three shared globals
  (\<open>write_index\<close>, \<open>read_index\<close>, \<open>event_buffer\<close>): the EXTI callback, which runs to
  completion in interrupt context, and the \<open>while (1)\<close> loop of \<open>main\<close>, which the
  callback may preempt between any two statements. Everything the code reads from
  the hardware or from the HAL (timer registers, pin level, millisecond tick, USB
  status) is an input of the model.
\<close>

type_synonym u8 = "8 word"
type_synonym u16 = "16 word"
type_synonym u32 = "32 word"

subsection \<open>Constants\<close>

text \<open>Lines 48-51. \<open>EVENT_MASK\<close> is \<open>MAX_EVENTS - 1\<close>.\<close>

definition EVENT_CHUNK_SIZE :: u32 where
  "EVENT_CHUNK_SIZE = 16"

definition USB_SEND_INTERVAL_MS :: u32 where
  "USB_SEND_INTERVAL_MS = 2"

definition MAX_EVENTS :: u32 where
  "MAX_EVENTS = 1024"

definition EVENT_MASK :: u32 where
  "EVENT_MASK = MAX_EVENTS - 1"

text \<open>
  The HAL headers are not part of the sources at hand, so the values of the macros that
  \<open>main.c\<close> compares against are parameters of the model: the four channel pins, the
  pin level \<open>GPIO_PIN_SET\<close> and the USB status \<open>USBD_BUSY\<close>.
\<close>

record hal_consts =
  GPIO_PIN_4 :: u16
  GPIO_PIN_5 :: u16
  GPIO_PIN_6 :: u16
  GPIO_PIN_7 :: u16
  GPIO_PIN_SET :: u8
  USBD_BUSY :: u8

text \<open>The values the STM32 HAL gives these macros, for evaluating the model.\<close>

definition stm32_hal :: hal_consts where
  "stm32_hal = \<lparr>GPIO_PIN_4 = 0x0010, GPIO_PIN_5 = 0x0020, GPIO_PIN_6 = 0x0040,
     GPIO_PIN_7 = 0x0080, GPIO_PIN_SET = 1, USBD_BUSY = 1\<rparr>"

subsection \<open>TimeBase: \<open>get_32bit_timer\<close> (lines 75-87)\<close>

text \<open>
  The function reads \<open>TIM3->CNT\<close>, \<open>TIM2->CNT\<close>, \<open>TIM3->CNT\<close> and, when the two
  reads of \<open>TIM3->CNT\<close> differ, \<open>TIM2->CNT\<close> once more. The registers are volatile:
  the four values read, in program order, are the input. Each is a 32-bit register
  value truncated to \<open>uint16_t\<close> by the assignment.
\<close>

record timer_reads =
  tim3_cnt_1 :: u32
  tim2_cnt_1 :: u32
  tim3_cnt_2 :: u32
  tim2_cnt_2 :: u32

definition compose_tick :: "u16 \<Rightarrow> u16 \<Rightarrow> u32" where
  "compose_tick high low = push_bit 16 (ucast high) OR ucast low"

definition get_32bit_timer :: "timer_reads \<Rightarrow> u32" where
  "get_32bit_timer rd =
     (let high1 = (ucast (tim3_cnt_1 rd) :: u16);
          low = (ucast (tim2_cnt_1 rd) :: u16);
          high2 = (ucast (tim3_cnt_2 rd) :: u16)
      in if high1 \<noteq> high2
         then compose_tick high2 (ucast (tim2_cnt_2 rd))
         else compose_tick high1 low)"

text \<open>
  The two chained counters as the hardware runs them: TIM2 counts the low 16 bits and
  its update event clocks TIM3 (lines 281-296 and 326-337), so at the instant the
  32-bit tick is \<open>t\<close> the registers hold the two halves of \<open>t\<close>. \<open>reads_at\<close> gives the
  four register reads taken at the ticks \<open>t1\<close>, \<open>t2\<close>, \<open>t3\<close>, \<open>t4\<close>.
\<close>

definition tim3_at :: "u32 \<Rightarrow> u32" where
  "tim3_at t = drop_bit 16 t"

definition tim2_at :: "u32 \<Rightarrow> u32" where
  "tim2_at t = t AND 0xFFFF"

definition reads_at :: "u32 \<Rightarrow> u32 \<Rightarrow> u32 \<Rightarrow> u32 \<Rightarrow> timer_reads" where
  "reads_at t1 t2 t3 t4 =
     \<lparr>tim3_cnt_1 = tim3_at t1, tim2_cnt_1 = tim2_at t2,
      tim3_cnt_2 = tim3_at t3, tim2_cnt_2 = tim2_at t4\<rparr>"

subsection \<open>EdgeCapture: event encoding (line 110)\<close>

definition encode_event :: "u32 \<Rightarrow> u32 \<Rightarrow> u32 \<Rightarrow> u32" where
  "encode_event edge channel time =
     push_bit 31 edge OR push_bit 29 channel OR (time AND 0x1FFFFFFF)"

text \<open>
  Modelled from the spec: the decoder runs on the host and is not in \<open>main.c\<close>. The
  fields are read where the spec's data model puts them: bit 31 is the direction
  (1 = rising), bits 30-29 the channel, bits 28-0 the timestamp.
\<close>

definition spec_decode_direction :: "u32 \<Rightarrow> u32" where
  "spec_decode_direction w = drop_bit 31 w"

definition spec_decode_channel :: "u32 \<Rightarrow> u32" where
  "spec_decode_channel w = drop_bit 29 w AND 3"

definition spec_decode_timestamp :: "u32 \<Rightarrow> u32" where
  "spec_decode_timestamp w = w AND 0x1FFFFFFF"

subsection \<open>State\<close>

text \<open>
  The globals of lines 52-54, the two NVIC enable bits and two timer run bits that
  \<open>main\<close> switches, and the locals of \<open>main\<close> that live across statements. The array
  \<open>event_buffer\<close> is a function of the slot number; every access goes through \<open>slot\<close>,
  which stays below \<open>MAX_EVENTS\<close> (lemma \<open>slot_less\<close>).

  The program counter of \<open>main\<close> names the statement the loop executes next and holds
  the locals alive there: \<open>now\<close>, \<open>to_send\<close>, \<open>usb_packet\<close>, \<open>i\<close> and \<open>event\<close>.
  \<open>to_send\<close> and \<open>i\<close> never exceed \<open>EVENT_CHUNK_SIZE\<close>, so they are naturals.
\<close>

datatype main_pc =
    Loop_Top
  | Drain_Load u32 nat "u8 list" nat
  | Drain_Advance u32 nat "u8 list" nat u32
  | Transmit u32 nat "u8 list"
  | Stop_Check
  | Stop_Disable
  | Stop_Reset

record config =
  write_index :: u32
  read_index :: u32
  event_buffer :: "nat \<Rightarrow> u32"
  exti4_enabled :: bool
  exti9_5_enabled :: bool
  tim2_running :: bool
  tim3_running :: bool
  last_usb_send_time :: u32
  pc :: main_pc

subsection \<open>EdgeCapture: \<open>HAL_GPIO_EXTI_Callback\<close> (lines 97-118)\<close>

text \<open>What one invocation of the callback reads from outside: its argument, the timer
  registers and the level \<open>HAL_GPIO_ReadPin\<close> returns.\<close>

record edge_input =
  GPIO_Pin :: u16
  cnt_reads :: timer_reads
  pin_state :: u8

definition slot :: "u32 \<Rightarrow> nat" where
  "slot i = unat (i AND EVENT_MASK)"

text \<open>Lines 100-105: the \<open>if\<close>/\<open>else if\<close> chain; \<open>None\<close> is the final \<open>else return\<close>.\<close>

definition channel_of_pin :: "hal_consts \<Rightarrow> u16 \<Rightarrow> u32 option" where
  "channel_of_pin hal p =
     (if p = GPIO_PIN_4 hal then Some 0
      else if p = GPIO_PIN_5 hal then Some 1
      else if p = GPIO_PIN_6 hal then Some 2
      else if p = GPIO_PIN_7 hal then Some 3
      else None)"

text \<open>Lines 107-110.\<close>

definition event_word :: "hal_consts \<Rightarrow> edge_input \<Rightarrow> u32 \<Rightarrow> u32" where
  "event_word hal inp channel =
     (let time = get_32bit_timer (cnt_reads inp);
          edge = (if pin_state inp = GPIO_PIN_SET hal then 1 else 0)
      in encode_event edge channel time)"

text \<open>Lines 112-117.\<close>

definition push_fits :: "config \<Rightarrow> bool" where
  "push_fits c = (write_index c + 1 - read_index c \<le> MAX_EVENTS)"

definition push_event :: "u32 \<Rightarrow> config \<Rightarrow> config" where
  "push_event data c =
     (let next_write = write_index c + 1
      in if next_write - read_index c \<le> MAX_EVENTS
         then c\<lparr>event_buffer := (event_buffer c)(slot (write_index c) := data),
                write_index := next_write\<rparr>
         else c)"

definition HAL_GPIO_EXTI_Callback :: "hal_consts \<Rightarrow> edge_input \<Rightarrow> config \<Rightarrow> config" where
  "HAL_GPIO_EXTI_Callback hal inp c =
     (case channel_of_pin hal (GPIO_Pin inp) of
        None \<Rightarrow> c
      | Some channel \<Rightarrow> push_event (event_word hal inp channel) c)"

subsection \<open>The main loop (lines 164-213), statement by statement\<close>

text \<open>
  What one statement of the loop reads from outside: \<open>HAL_GetTick()\<close> (line 167), the
  status \<open>CDC_Transmit_FS\<close> returns (line 194) and the timer registers (line 200).
  A statement uses the field it reads and ignores the others.
\<close>

record main_input =
  hal_tick :: u32
  tx_status :: u8
  stop_reads :: timer_reads

text \<open>
  Lines 187-190: the four bytes of \<open>event\<close>, least significant first, stored at
  \<open>usb_packet[i*4 + 0 .. i*4 + 3]\<close>.
\<close>

definition store_le :: "u8 list \<Rightarrow> nat \<Rightarrow> u32 \<Rightarrow> u8 list" where
  "store_le usb_packet i event =
     usb_packet
       [i * 4 + 0 := ucast (event AND 0xFF),
        i * 4 + 1 := ucast (drop_bit 8 event AND 0xFF),
        i * 4 + 2 := ucast (drop_bit 16 event AND 0xFF),
        i * 4 + 3 := ucast (drop_bit 24 event AND 0xFF)]"

text \<open>
  What the outside can see of a step: a word the callback stored or dropped, a word
  the loop took out of the buffer, and a call of \<open>CDC_Transmit_FS\<close> with the bytes
  handed over and the status it returned.
\<close>

datatype action =
    Pushed u32
  | Dropped u32
  | Popped u32
  | Sent "u8 list" u8

text \<open>
  One statement of the loop. The pairs of statements grouped into one step touch no
  shared variable between them, or run with the interrupt masked or disabled:
  \<^item> \<open>Loop_Top\<close>: lines 167-179. The two cursors are read between \<open>__disable_irq\<close>
    and \<open>__enable_irq\<close>; \<open>MIN\<close> is the smaller of its arguments; the array
    \<open>usb_packet\<close> has \<open>to_send * 4\<close> bytes, whose initial values C leaves open and
    which start as 0 here (the loop overwrites every one of them before line 194,
    see \<open>pc_inv\<close>); the loop is entered with \<open>i = 0\<close>.
  \<^item> \<open>Drain_Load\<close>: line 185.
  \<^item> \<open>Drain_Advance\<close>: lines 186-190, then \<open>++i\<close> and the test \<open>i < to_send\<close>.
  \<^item> \<open>Transmit\<close>: one call of \<open>CDC_Transmit_FS\<close> of line 194; line 195 once the
    status is not \<open>USBD_BUSY\<close>.
  \<^item> \<open>Stop_Check\<close>: line 200. \<open>Stop_Disable\<close>: lines 202-205. \<open>Stop_Reset\<close>:
    lines 206-207.
\<close>

definition main_step :: "hal_consts \<Rightarrow> main_input \<Rightarrow> config \<Rightarrow> config \<times> action list" where
  "main_step hal inp c =
     (case pc c of
        Loop_Top \<Rightarrow>
          (let now = hal_tick inp;
               diff = write_index c - read_index c
           in if diff \<ge> EVENT_CHUNK_SIZE \<or> now - last_usb_send_time c \<ge> USB_SEND_INTERVAL_MS
              then (let to_send = unat (min EVENT_CHUNK_SIZE diff)
                    in if to_send > 0
                       then (c\<lparr>pc := Drain_Load now to_send (replicate (to_send * 4) 0) 0\<rparr>, [])
                       else (c\<lparr>pc := Stop_Check\<rparr>, []))
              else (c\<lparr>pc := Stop_Check\<rparr>, []))
      | Drain_Load now to_send usb_packet i \<Rightarrow>
          (c\<lparr>pc := Drain_Advance now to_send usb_packet i
                   (event_buffer c (slot (read_index c)))\<rparr>, [])
      | Drain_Advance now to_send usb_packet i event \<Rightarrow>
          (let usb_packet' = store_le usb_packet i event
           in (c\<lparr>read_index := read_index c + 1,
                  pc := (if i + 1 < to_send
                         then Drain_Load now to_send usb_packet' (i + 1)
                         else Transmit now to_send usb_packet')\<rparr>,
               [Popped event]))
      | Transmit now to_send usb_packet \<Rightarrow>
          (if tx_status inp = USBD_BUSY hal
           then (c, [Sent (take (to_send * 4) usb_packet) (tx_status inp)])
           else (c\<lparr>last_usb_send_time := now, pc := Stop_Check\<rparr>,
                 [Sent (take (to_send * 4) usb_packet) (tx_status inp)]))
      | Stop_Check \<Rightarrow>
          (if get_32bit_timer (stop_reads inp) \<ge> 2 ^ 29
           then (c\<lparr>pc := Stop_Disable\<rparr>, [])
           else (c\<lparr>pc := Loop_Top\<rparr>, []))
      | Stop_Disable \<Rightarrow>
          (c\<lparr>tim2_running := False, tim3_running := False,
             exti4_enabled := False, exti9_5_enabled := False,
             pc := Stop_Reset\<rparr>, [])
      | Stop_Reset \<Rightarrow>
          (c\<lparr>write_index := 0, read_index := 0, pc := Loop_Top\<rparr>, []))"

subsection \<open>Interrupt delivery and runs\<close>

text \<open>
  Modelled from the spec: the interrupt controller and the handlers that call
  \<open>HAL_GPIO_EXTI_Callback\<close> are not in \<open>main.c\<close>. Following the spec, the platform
  invokes the callback once per qualifying transition with the pin identity, and a
  disabled interrupt source invokes nothing. An edge arrives on one of the two
  lines that \<open>MX_GPIO_Init\<close> enables (lines 378-382).
\<close>

datatype irqn = EXTI4_IRQn | EXTI9_5_IRQn

fun irq_enabled :: "irqn \<Rightarrow> config \<Rightarrow> bool" where
  "irq_enabled EXTI4_IRQn c = exti4_enabled c"
| "irq_enabled EXTI9_5_IRQn c = exti9_5_enabled c"

definition callback_actions :: "hal_consts \<Rightarrow> edge_input \<Rightarrow> config \<Rightarrow> action list" where
  "callback_actions hal inp c =
     (case channel_of_pin hal (GPIO_Pin inp) of
        None \<Rightarrow> []
      | Some channel \<Rightarrow>
          (if push_fits c then [Pushed (event_word hal inp channel)]
           else [Dropped (event_word hal inp channel)]))"

datatype event = Edge irqn edge_input | Main main_input

fun step :: "hal_consts \<Rightarrow> event \<Rightarrow> config \<Rightarrow> config \<times> action list" where
  "step hal (Edge n inp) c =
     (if irq_enabled n c
      then (HAL_GPIO_EXTI_Callback hal inp c, callback_actions hal inp c)
      else (c, []))"
| "step hal (Main inp) c = main_step hal inp c"

fun run :: "hal_consts \<Rightarrow> event list \<Rightarrow> config \<times> action list \<Rightarrow> config \<times> action list" where
  "run hal [] ct = ct"
| "run hal (e # es) (c, tr) =
     (case step hal e c of (c', acts) \<Rightarrow> run hal es (c', tr @ acts))"

text \<open>
  The state when the loop is first entered: the globals as initialised at lines
  52-54 (the array is zeroed static storage), both interrupt lines enabled by
  \<open>MX_GPIO_Init\<close>, both timers started (lines 156-157), \<open>last_usb_send_time = 0\<close>.
\<close>

definition boot :: config where
  "boot = \<lparr>write_index = 0, read_index = 0, event_buffer = (\<lambda>_. 0),
     exti4_enabled = True, exti9_5_enabled = True,
     tim2_running = True, tim3_running = True,
     last_usb_send_time = 0, pc = Loop_Top\<rparr>"

definition exec :: "hal_consts \<Rightarrow> event list \<Rightarrow> config \<times> action list" where
  "exec hal es = run hal es (boot, [])"

text \<open>
  The statements of one pass of the loop body that drains and sends: line 167-179
  with input \<open>t\<close>, the statements of the \<open>for\<close> loop with inputs \<open>d\<close>, the call of
  line 194 that is accepted with input \<open>s\<close>, and the check of line 200 with input \<open>k\<close>.
\<close>

definition iteration :: "main_input \<Rightarrow> main_input list \<Rightarrow> main_input \<Rightarrow> main_input \<Rightarrow> event list" where
  "iteration t d s k = Main t # map Main d @ [Main s, Main k]"

subsection \<open>Observations\<close>

text \<open>The words stored, and the words taken out, in the order of the trace; the
  packets handed to \<open>CDC_Transmit_FS\<close>, one per call; the inputs of the statements
  of the main loop among the events of a run; and edges given as pairs of line and
  input.\<close>

fun pushed :: "action list \<Rightarrow> u32 list" where
  "pushed [] = []"
| "pushed (Pushed d # tr) = d # pushed tr"
| "pushed (_ # tr) = pushed tr"

fun popped :: "action list \<Rightarrow> u32 list" where
  "popped [] = []"
| "popped (Popped d # tr) = d # popped tr"
| "popped (_ # tr) = popped tr"

fun sent_packets :: "action list \<Rightarrow> u8 list list" where
  "sent_packets [] = []"
| "sent_packets (Sent p st # tr) = p # sent_packets tr"
| "sent_packets (_ # tr) = sent_packets tr"

fun main_inputs :: "event list \<Rightarrow> main_input list" where
  "main_inputs [] = []"
| "main_inputs (Main inp # es) = inp # main_inputs es"
| "main_inputs (_ # es) = main_inputs es"

definition edges :: "(irqn \<times> edge_input) list \<Rightarrow> event list" where
  "edges xs = map (\<lambda>(n, inp). Edge n inp) xs"

text \<open>The content of the buffer between the two cursors, oldest first.\<close>

definition occupancy :: "config \<Rightarrow> nat" where
  "occupancy c = unat (write_index c - read_index c)"

definition contents :: "config \<Rightarrow> u32 list" where
  "contents c =
     map (\<lambda>k. event_buffer c (slot (read_index c + of_nat k))) [0..<occupancy c]"

text \<open>Little-endian bytes of a word, and of a sequence of words.\<close>

definition le_bytes :: "u32 \<Rightarrow> u8 list" where
  "le_bytes w = [ucast w, ucast (drop_bit 8 w), ucast (drop_bit 16 w), ucast (drop_bit 24 w)]"

definition serialize :: "u32 list \<Rightarrow> u8 list" where
  "serialize ws = concat (map le_bytes ws)"

definition lastn :: "nat \<Rightarrow> 'a list \<Rightarrow> 'a list" where
  "lastn n xs = drop (length xs - n) xs"

subsection \<open>The invariant of the two contexts\<close>

text \<open>
  \<open>packets_from ps tr\<close>: every packet handed to \<open>CDC_Transmit_FS\<close> in \<open>tr\<close> has a
  length divisible by 4 and is the serialization of the words most recently taken
  out of the buffer, \<open>ps\<close> being the words taken out before \<open>tr\<close>.

  \<open>draining\<close>: inside the \<open>for\<close> loop, with \<open>i\<close> words copied so far.

  \<open>fifo_inv\<close>: the words stored so far are the words taken out, then the content of
  the buffer, then the words the stop transition threw away; and nothing was thrown
  away while an interrupt line is still enabled.
\<close>

definition irqs_off :: "config \<Rightarrow> bool" where
  "irqs_off c = (\<not> exti4_enabled c \<and> \<not> exti9_5_enabled c)"

fun packets_from :: "u32 list \<Rightarrow> action list \<Rightarrow> bool" where
  "packets_from ps [] = True"
| "packets_from ps (Popped d # tr) = packets_from (ps @ [d]) tr"
| "packets_from ps (Sent pkt st # tr) =
     (4 dvd length pkt \<and> pkt = serialize (lastn (length pkt div 4) ps) \<and> packets_from ps tr)"
| "packets_from ps (_ # tr) = packets_from ps tr"

definition draining :: "config \<Rightarrow> action list \<Rightarrow> nat \<Rightarrow> u8 list \<Rightarrow> nat \<Rightarrow> bool" where
  "draining c tr to_send usb_packet i =
     (i < to_send \<and> to_send \<le> unat EVENT_CHUNK_SIZE \<and> to_send - i \<le> occupancy c
      \<and> length usb_packet = to_send * 4 \<and> i \<le> length (popped tr)
      \<and> take (i * 4) usb_packet = serialize (lastn i (popped tr)))"

definition pc_inv :: "config \<Rightarrow> action list \<Rightarrow> bool" where
  "pc_inv c tr =
     (case pc c of
        Loop_Top \<Rightarrow> True
      | Drain_Load now to_send usb_packet i \<Rightarrow> draining c tr to_send usb_packet i
      | Drain_Advance now to_send usb_packet i event \<Rightarrow>
          draining c tr to_send usb_packet i \<and> event = event_buffer c (slot (read_index c))
      | Transmit now to_send usb_packet \<Rightarrow>
          0 < to_send \<and> to_send \<le> unat EVENT_CHUNK_SIZE \<and> length usb_packet = to_send * 4
          \<and> to_send \<le> length (popped tr)
          \<and> usb_packet = serialize (lastn to_send (popped tr))
      | Stop_Check \<Rightarrow> True
      | Stop_Disable \<Rightarrow> True
      | Stop_Reset \<Rightarrow> irqs_off c)"

definition fifo_inv :: "config \<Rightarrow> action list \<Rightarrow> bool" where
  "fifo_inv c tr =
     (take (length (popped tr) + occupancy c) (pushed tr) = popped tr @ contents c
      \<and> (if length (popped tr) + occupancy c < length (pushed tr) then irqs_off c else True))"

definition sys_inv :: "config \<Rightarrow> action list \<Rightarrow> bool" where
  "sys_inv c tr =
     (occupancy c \<le> unat MAX_EVENTS \<and> fifo_inv c tr \<and> pc_inv c tr \<and> packets_from [] tr)"

text \<open>After the stop transition: both lines disabled, both cursors 0, the loop
  outside the drain and the transmit statements.\<close>

definition stopped :: "config \<Rightarrow> bool" where
  "stopped c = (irqs_off c \<and> write_index c = 0 \<and> read_index c = 0
     \<and> (pc c = Loop_Top \<or> pc c = Stop_Check \<or> pc c = Stop_Disable \<or> pc c = Stop_Reset))"

subsection \<open>Sample inputs and states\<close>

text \<open>A rising edge on channel 0 at tick \<open>t\<close>, and inputs of the loop: tick 5 ms, the
  transport accepting, the timer at 7.\<close>

definition sample_edge :: "u32 \<Rightarrow> edge_input" where
  "sample_edge t = \<lparr>GPIO_Pin = 0x0010, cnt_reads = reads_at t t t t, pin_state = 1\<rparr>"

definition sample_main :: main_input where
  "sample_main = \<lparr>hal_tick = 5, tx_status = 0, stop_reads = reads_at 7 7 7 7\<rparr>"

definition sample_run :: "event list" where
  "sample_run = [Edge EXTI4_IRQn (sample_edge 0x12345), Main sample_main, Main sample_main,
     Main sample_main, Main sample_main]"

definition fill_inputs :: "edge_input list" where
  "fill_inputs = map (\<lambda>k. sample_edge (of_nat k)) [0..<1024]"

text \<open>Inputs of the loop: one arriving 1 ms after boot, one with the transport busy,
  one with the timer at \<open>2^29\<close>. \<open>pending_state\<close> is reached from boot with two events
  buffered and the loop at the check of line 200; \<open>transmit_state\<close> is reached from
  boot with one event drained and the loop at line 194.\<close>

definition idle_main :: main_input where
  "idle_main = \<lparr>hal_tick = 1, tx_status = 0, stop_reads = reads_at 7 7 7 7\<rparr>"

definition busy_main :: main_input where
  "busy_main = \<lparr>hal_tick = 6, tx_status = 1, stop_reads = reads_at 7 7 7 7\<rparr>"

definition late_main :: main_input where
  "late_main = \<lparr>hal_tick = 6, tx_status = 0,
     stop_reads = reads_at 0x20000000 0x20000000 0x20000000 0x20000000\<rparr>"

definition pending_state :: config where
  "pending_state = fst (exec stm32_hal
     [Edge EXTI4_IRQn (sample_edge 1), Edge EXTI4_IRQn (sample_edge 2), Main idle_main])"

definition transmit_state :: config where
  "transmit_state = fst (exec stm32_hal (take 4 sample_run))"

text \<open>An input of the loop 9 ms after boot; the state reached from boot by 40 edges
  on channel 0; a pass of the loop body that drains 16 events, and one that drains 8
  once the send interval has elapsed.\<close>

definition later_main :: main_input where
  "later_main = \<lparr>hal_tick = 9, tx_status = 0, stop_reads = reads_at 7 7 7 7\<rparr>"

definition state40 :: config where
  "state40 = fst (exec stm32_hal (map (Edge EXTI4_IRQn) (take 40 fill_inputs)))"

definition pass16 :: "event list" where
  "pass16 = iteration sample_main (replicate 32 sample_main) sample_main sample_main"

definition pass8 :: "event list" where
  "pass8 = iteration later_main (replicate 16 sample_main) sample_main sample_main"

section \<open>Properties\<close>

subsection \<open>Word facts\<close>

lemma mask29: "(0x1FFFFFFF :: u32) = mask 29"
  by (simp add: mask_eq_exp_minus_1)

lemma mask16: "(0xFFFF :: u32) = mask 16"
  by (simp add: mask_eq_exp_minus_1)

lemma mask2: "(3 :: u32) = mask 2"
  by (simp add: mask_eq_exp_minus_1)

lemma edge_bit: "(edge :: u32) \<le> 1 \<Longrightarrow> edge AND mask 1 = edge"
  by (rule less_mask_eq) (simp add: word_le_nat_alt word_less_nat_alt)

lemma channel_bits: "(channel :: u32) \<le> 3 \<Longrightarrow> channel AND mask 2 = channel"
  by (rule less_mask_eq) (simp add: word_le_nat_alt word_less_nat_alt)

lemma time_bits: "(time :: u32) < 2 ^ 29 \<Longrightarrow> time AND mask 29 = time"
  by (rule less_mask_eq)

lemma encode_fields:
  fixes e c t :: u32
  shows "spec_decode_direction (encode_event (e AND mask 1) (c AND mask 2) (t AND mask 29))
           = e AND mask 1"
    and "spec_decode_channel (encode_event (e AND mask 1) (c AND mask 2) (t AND mask 29))
           = c AND mask 2"
    and "spec_decode_timestamp (encode_event (e AND mask 1) (c AND mask 2) (t AND mask 29))
           = t AND mask 29"
  unfolding spec_decode_direction_def spec_decode_channel_def spec_decode_timestamp_def
    encode_event_def mask29 mask2
  by (rule bit_word_eqI; auto simp: bit_simps)+

lemma compose_tick_high: "ucast (drop_bit 16 (compose_tick h l)) = h"
  unfolding compose_tick_def
  by (rule bit_word_eqI) (auto simp: bit_simps dest: bit_imp_le_length)

lemma compose_tick_low: "ucast (compose_tick h l) = l"
  unfolding compose_tick_def
  by (rule bit_word_eqI) (auto simp: bit_simps)

lemma compose_tick_halves: "compose_tick (ucast (tim3_at t)) (ucast (tim2_at t)) = t"
  unfolding compose_tick_def tim3_at_def tim2_at_def mask16
  by (rule bit_word_eqI) (auto simp: bit_simps)

subsection \<open>TimeBase\<close>

text \<open>
  With the registers of the chained counters read at the ticks \<open>t1 .. t4\<close>: when the
  high half moved between the first and the third read and stays put until the
  re-read, the result is the tick of the re-read; when the high half is the same
  over the first three reads, the result is the tick of the low read.
\<close>

lemma get_32bit_timer_snapshot_wrapped:
  assumes "tim3_at t1 \<noteq> tim3_at t3" and "tim3_at t4 = tim3_at t3"
  shows "get_32bit_timer (reads_at t1 t2 t3 t4) = t4"
proof -
  have "(ucast (tim3_at t1) :: u16) \<noteq> ucast (tim3_at t3)"
  proof
    assume "(ucast (tim3_at t1) :: u16) = ucast (tim3_at t3)"
    then have "compose_tick (ucast (tim3_at t1)) (ucast (tim2_at t1))
        = compose_tick (ucast (tim3_at t3)) (ucast (tim2_at t1))"
      by simp
    then have "drop_bit 16 (compose_tick (ucast (tim3_at t1)) (ucast (tim2_at t1)))
        = drop_bit 16 (compose_tick (ucast (tim3_at t3)) (ucast (tim2_at t1)))"
      by simp
    moreover have "drop_bit 16 (compose_tick (ucast (tim3_at t)) l) = tim3_at t" for t l
      unfolding compose_tick_def tim3_at_def
      by (rule bit_word_eqI) (auto simp: bit_simps dest: bit_imp_le_length)
    ultimately show False using assms(1) by simp
  qed
  then have "get_32bit_timer (reads_at t1 t2 t3 t4)
      = compose_tick (ucast (tim3_at t3)) (ucast (tim2_at t4))"
    by (simp add: get_32bit_timer_def reads_at_def)
  then show ?thesis
    using assms(2) compose_tick_halves [of t4] by simp
qed

lemma get_32bit_timer_snapshot_plain:
  assumes "tim3_at t1 = tim3_at t3" and "tim3_at t2 = tim3_at t1"
  shows "get_32bit_timer (reads_at t1 t2 t3 t4) = t2"
  using assms compose_tick_halves [of t2]
  by (simp add: get_32bit_timer_def reads_at_def)

text \<open>
  C4. Whenever the two reads of the high counter differ (in particular when the low
  counter wrapped exactly once between them, so that the second is the first plus
  one), \<open>get_32bit_timer\<close> returns the second high word shifted left by 16, or-ed with
  the re-read low word; the high half of the result is the post-wrap high word, so
  the result is no combination of the pre-wrap high word with any low word. When the
  two reads of the high counter agree, it returns that high word shifted left by 16,
  or-ed with the low word of the single read.
\<close>

theorem get_32bit_timer_composition:
  fixes rd :: timer_reads
  shows "((ucast (tim3_cnt_1 rd) :: u16) \<noteq> ucast (tim3_cnt_2 rd) \<longrightarrow>
            get_32bit_timer rd
              = push_bit 16 (ucast (ucast (tim3_cnt_2 rd) :: u16))
                  OR ucast (ucast (tim2_cnt_2 rd) :: u16)
          \<and> (ucast (drop_bit 16 (get_32bit_timer rd)) :: u16) = ucast (tim3_cnt_2 rd)
          \<and> (\<forall>lo. get_32bit_timer rd \<noteq> compose_tick (ucast (tim3_cnt_1 rd)) lo))
       \<and> ((ucast (tim3_cnt_1 rd) :: u16) = ucast (tim3_cnt_2 rd) \<longrightarrow>
            get_32bit_timer rd
              = push_bit 16 (ucast (ucast (tim3_cnt_1 rd) :: u16))
                  OR ucast (ucast (tim2_cnt_1 rd) :: u16))"
proof (intro conjI impI allI)
  assume ne: "(ucast (tim3_cnt_1 rd) :: u16) \<noteq> ucast (tim3_cnt_2 rd)"
  then have res: "get_32bit_timer rd
      = compose_tick (ucast (tim3_cnt_2 rd)) (ucast (tim2_cnt_2 rd))"
    by (simp add: get_32bit_timer_def)
  then show "get_32bit_timer rd
      = push_bit 16 (ucast (ucast (tim3_cnt_2 rd) :: u16))
          OR ucast (ucast (tim2_cnt_2 rd) :: u16)"
    by (simp add: compose_tick_def)
  show "(ucast (drop_bit 16 (get_32bit_timer rd)) :: u16) = ucast (tim3_cnt_2 rd)"
    by (simp only: res compose_tick_high)
  fix lo
  show "get_32bit_timer rd \<noteq> compose_tick (ucast (tim3_cnt_1 rd)) lo"
  proof
    assume "get_32bit_timer rd = compose_tick (ucast (tim3_cnt_1 rd)) lo"
    then have "(ucast (drop_bit 16 (compose_tick (ucast (tim3_cnt_2 rd)) (ucast (tim2_cnt_2 rd)))) :: u16)
        = ucast (drop_bit 16 (compose_tick (ucast (tim3_cnt_1 rd)) lo))"
      by (simp only: res)
    then show False using ne by (simp only: compose_tick_high)
  qed
next
  assume "(ucast (tim3_cnt_1 rd) :: u16) = ucast (tim3_cnt_2 rd)"
  then show "get_32bit_timer rd
      = push_bit 16 (ucast (ucast (tim3_cnt_1 rd) :: u16))
          OR ucast (ucast (tim2_cnt_1 rd) :: u16)"
    by (simp add: get_32bit_timer_def compose_tick_def)
qed

theorem get_32bit_timer_composition_witness:
  "(ucast (tim3_cnt_1 (reads_at 0x1FFFF 0x20000 0x20001 0x20003)) :: u16)
      \<noteq> ucast (tim3_cnt_2 (reads_at 0x1FFFF 0x20000 0x20001 0x20003))
   \<and> get_32bit_timer (reads_at 0x1FFFF 0x20000 0x20001 0x20003) = 0x20003
   \<and> (\<forall>lo. get_32bit_timer (reads_at 0x1FFFF 0x20000 0x20001 0x20003)
          \<noteq> compose_tick (ucast (tim3_cnt_1 (reads_at 0x1FFFF 0x20000 0x20001 0x20003))) lo)
   \<and> (ucast (tim3_cnt_1 (reads_at 0x20003 0x20004 0x20005 0x20006)) :: u16)
      = ucast (tim3_cnt_2 (reads_at 0x20003 0x20004 0x20005 0x20006))
   \<and> get_32bit_timer (reads_at 0x20003 0x20004 0x20005 0x20006) = 0x20004"
  using get_32bit_timer_composition [of "reads_at 0x1FFFF 0x20000 0x20001 0x20003"]
    get_32bit_timer_composition [of "reads_at 0x20003 0x20004 0x20005 0x20006"]
  by (auto simp: reads_at_def tim3_at_def tim2_at_def)

subsection \<open>Event encoding\<close>

text \<open>
  C3. For every channel in 0..3, every direction (1 = rising, 0 = falling) and every
  timestamp below 2^29, the word built at line 110 carries the direction in bit 31,
  the channel in bits 30-29 and the timestamp in bits 28-0: reading the three
  fields back gives the triple that was encoded.
\<close>

theorem encode_event_roundtrip:
  assumes "edge \<le> 1" and "channel \<le> 3" and "time < 2 ^ 29"
  shows "spec_decode_direction (encode_event edge channel time) = edge
       \<and> spec_decode_channel (encode_event edge channel time) = channel
       \<and> spec_decode_timestamp (encode_event edge channel time) = time"
proof -
  note f = encode_fields [of edge channel time]
  show ?thesis
    using f
    unfolding edge_bit [OF assms(1)] channel_bits [OF assms(2)] time_bits [OF assms(3)]
    by simp
qed

theorem encode_event_roundtrip_witness:
  "(1 :: u32) \<le> 1 \<and> (3 :: u32) \<le> 3 \<and> (12345 :: u32) < 2 ^ 29
   \<and> encode_event 1 3 12345 = 0xE0003039
   \<and> spec_decode_direction (encode_event 1 3 12345) = 1
   \<and> spec_decode_channel (encode_event 1 3 12345) = 3
   \<and> spec_decode_timestamp (encode_event 1 3 12345) = 12345"
proof -
  have h: "(1 :: u32) \<le> 1" "(3 :: u32) \<le> 3" "(12345 :: u32) < 2 ^ 29"
    by simp_all
  have "encode_event 1 3 12345 = 0xE0003039"
    by (simp add: encode_event_def)
  then show ?thesis
    using h encode_event_roundtrip [OF h] by simp
qed

subsection \<open>Unmapped pins\<close>

text \<open>
  C9. When the pin identity is none of the four channel pins \<open>GPIO_PIN_4\<close> ..
  \<open>GPIO_PIN_7\<close>, the callback returns the state it was given: \<open>write_index\<close>,
  \<open>read_index\<close> and \<open>event_buffer\<close> are unchanged, and an edge delivered with such
  a pin changes nothing and shows nothing.
\<close>

theorem callback_unmapped_pin:
  assumes "GPIO_Pin inp \<notin> {GPIO_PIN_4 hal, GPIO_PIN_5 hal, GPIO_PIN_6 hal, GPIO_PIN_7 hal}"
  shows "HAL_GPIO_EXTI_Callback hal inp c = c \<and> step hal (Edge n inp) c = (c, [])"
  using assms
  by (simp add: HAL_GPIO_EXTI_Callback_def callback_actions_def channel_of_pin_def)

theorem callback_unmapped_pin_witness:
  "GPIO_Pin \<lparr>GPIO_Pin = 0x0100, cnt_reads = reads_at 5 6 7 8, pin_state = 1\<rparr>
     \<notin> {GPIO_PIN_4 stm32_hal, GPIO_PIN_5 stm32_hal, GPIO_PIN_6 stm32_hal, GPIO_PIN_7 stm32_hal}
   \<and> HAL_GPIO_EXTI_Callback stm32_hal
        \<lparr>GPIO_Pin = 0x0100, cnt_reads = reads_at 5 6 7 8, pin_state = 1\<rparr> boot = boot
   \<and> step stm32_hal
        (Edge EXTI9_5_IRQn \<lparr>GPIO_Pin = 0x0100, cnt_reads = reads_at 5 6 7 8, pin_state = 1\<rparr>)
        boot = (boot, [])"
proof -
  have h: "GPIO_Pin \<lparr>GPIO_Pin = 0x0100, cnt_reads = reads_at 5 6 7 8, pin_state = 1\<rparr>
     \<notin> {GPIO_PIN_4 stm32_hal, GPIO_PIN_5 stm32_hal, GPIO_PIN_6 stm32_hal, GPIO_PIN_7 stm32_hal}"
    by (simp add: stm32_hal_def)
  show ?thesis
    using h callback_unmapped_pin [OF h, of boot EXTI9_5_IRQn] by simp
qed

subsection \<open>Cursor arithmetic\<close>

lemma event_mask: "EVENT_MASK = mask 10"
  by (simp add: EVENT_MASK_def MAX_EVENTS_def mask_eq_exp_minus_1)

lemma slot_mod: "slot i = unat i mod 1024"
proof -
  have "slot i = unat (take_bit 10 i)"
    by (simp add: slot_def event_mask take_bit_eq_mask)
  also have "\<dots> = take_bit 10 (unat i)"
    by (simp add: unsigned_take_bit_eq)
  finally show ?thesis by (simp add: take_bit_eq_mod)
qed

lemma slot_less: "slot i < unat MAX_EVENTS"
  by (simp add: slot_mod MAX_EVENTS_def)

lemma slot_add: "slot (r + of_nat k) = (unat r + k) mod 1024"
proof -
  have "unat (r + of_nat k) = (unat r + k) mod 2 ^ 32"
    by (simp add: unat_word_ariths unat_of_nat mod_add_right_eq)
  then have "slot (r + of_nat k) = (unat r + k) mod 2 ^ 32 mod 1024"
    by (simp add: slot_mod)
  also have "\<dots> = (unat r + k) mod 1024"
    by (rule mod_mod_cancel) simp
  finally show ?thesis .
qed

lemma slot_distinct:
  assumes "j < k" and "k < j + 1024"
  shows "slot (r + of_nat j) \<noteq> slot (r + of_nat k)"
proof
  assume "slot (r + of_nat j) = slot (r + of_nat k)"
  then have "(unat r + j) mod 1024 = (unat r + k) mod 1024"
    by (simp add: slot_add)
  then have "1024 dvd (unat r + k) - (unat r + j)"
    by (metis mod_eq_dvd_iff_nat add_le_cancel_left assms(1) less_imp_le)
  then have "(1024 :: nat) dvd k - j" by simp
  moreover have "0 < k - j" using assms by simp
  ultimately have "1024 \<le> k - j" by (rule dvd_imp_le)
  then show False using assms by simp
qed

lemma unat_succ:
  fixes d :: u32
  assumes "unat d \<le> 1024"
  shows "unat (d + 1) = unat d + 1"
proof -
  have "unat (d + 1) = (unat d + 1) mod 2 ^ 32"
    by (simp add: unat_word_ariths)
  then show ?thesis using assms by simp
qed

lemma occupancy_succ:
  fixes w r :: u32
  assumes "unat (w - r) \<le> 1024"
  shows "unat (w + 1 - r) = unat (w - r) + 1"
proof -
  have eq: "w + 1 - r = (w - r) + 1" by simp
  show ?thesis unfolding eq using assms by (rule unat_succ)
qed

lemma occupancy_pred:
  fixes w r :: u32
  assumes "0 < unat (w - r)"
  shows "unat (w - (r + 1)) = unat (w - r) - 1"
proof -
  have eq: "w - (r + 1) = (w - r) - 1" by simp
  have "w - r \<noteq> 0" using assms by (simp add: unat_gt_0)
  then show ?thesis unfolding eq by (rule unat_minus_one)
qed

lemma push_fits_iff:
  assumes "occupancy c \<le> unat MAX_EVENTS"
  shows "push_fits c \<longleftrightarrow> occupancy c < unat MAX_EVENTS"
proof -
  have "unat (write_index c + 1 - read_index c) = occupancy c + 1"
    using assms unfolding occupancy_def MAX_EVENTS_def by (simp add: occupancy_succ)
  then show ?thesis
    using assms by (auto simp: push_fits_def word_le_nat_alt MAX_EVENTS_def)
qed

lemma write_index_as_read: "write_index c = read_index c + of_nat (occupancy c)"
  by (simp add: occupancy_def)

subsection \<open>Pushing and popping against the buffer content\<close>

lemma push_event_fits:
  "push_fits c \<Longrightarrow> push_event d c =
     c\<lparr>event_buffer := (event_buffer c)(slot (write_index c) := d),
       write_index := write_index c + 1\<rparr>"
  by (simp add: push_event_def push_fits_def Let_def)

lemma push_event_full: "\<not> push_fits c \<Longrightarrow> push_event d c = c"
  by (simp add: push_event_def push_fits_def Let_def)

lemma occupancy_push:
  assumes "occupancy c \<le> unat MAX_EVENTS" and "push_fits c"
  shows "occupancy (push_event d c) = occupancy c + 1"
  using assms unfolding occupancy_def MAX_EVENTS_def
  by (simp add: push_event_fits occupancy_succ)

lemma contents_push:
  assumes "occupancy c \<le> unat MAX_EVENTS" and "push_fits c"
  shows "contents (push_event d c) = contents c @ [d]"
proof -
  let ?c' = "push_event d c"
  have lt: "occupancy c < 1024"
    using assms push_fits_iff [OF assms(1)] by (simp add: MAX_EVENTS_def)
  have occ: "occupancy ?c' = occupancy c + 1" by (rule occupancy_push [OF assms])
  have r: "read_index ?c' = read_index c" by (simp add: push_event_fits assms(2))
  have buf: "event_buffer ?c' = (event_buffer c)(slot (read_index c + of_nat (occupancy c)) := d)"
    using write_index_as_read [of c] by (simp add: push_event_fits assms(2))
  have old: "event_buffer ?c' (slot (read_index c + of_nat k)) = event_buffer c (slot (read_index c + of_nat k))"
    if "k < occupancy c" for k
    using slot_distinct [of k "occupancy c" "read_index c"] that lt by (simp add: buf)
  have new: "event_buffer ?c' (slot (read_index c + of_nat (occupancy c))) = d"
    by (simp add: buf)
  show ?thesis
    unfolding contents_def occ r using old new by simp
qed

lemma head_slot_push:
  assumes "occupancy c \<le> unat MAX_EVENTS" and "0 < occupancy c"
  shows "event_buffer (push_event d c) (slot (read_index c)) = event_buffer c (slot (read_index c))"
proof (cases "push_fits c")
  case True
  then have lt: "occupancy c < 1024"
    using push_fits_iff [OF assms(1)] by (simp add: MAX_EVENTS_def)
  have "slot (read_index c + of_nat 0) \<noteq> slot (read_index c + of_nat (occupancy c))"
    using assms(2) lt by (intro slot_distinct) simp_all
  then have "slot (read_index c) \<noteq> slot (write_index c)"
    using write_index_as_read [of c] by simp
  then show ?thesis by (simp add: push_event_fits True)
next
  case False
  then show ?thesis by (simp add: push_event_full)
qed



lemma occupancy_pop:
  assumes "0 < occupancy c"
  shows "occupancy (c\<lparr>read_index := read_index c + 1, pc := p\<rparr>) = occupancy c - 1"
  using assms unfolding occupancy_def by (simp add: occupancy_pred)

lemma contents_pop:
  assumes "0 < occupancy c"
  shows "contents c = event_buffer c (slot (read_index c))
           # contents (c\<lparr>read_index := read_index c + 1, pc := p\<rparr>)"
proof -
  let ?c' = "c\<lparr>read_index := read_index c + 1, pc := p\<rparr>"
  have occ: "occupancy ?c' = occupancy c - 1" by (rule occupancy_pop [OF assms])
  have up: "[0..<occupancy c] = 0 # map Suc [0..<occupancy c - 1]"
    using assms by (metis One_nat_def Suc_pred map_Suc_upt upt_conv_Cons)
  have idx: "read_index c + 1 + of_nat k = read_index c + of_nat (Suc k)" for k
    by simp
  show ?thesis
    unfolding contents_def occ
    by (subst up) (simp add: comp_def idx del: of_nat_Suc)
qed


subsection \<open>Traces and packets\<close>

lemma pushed_append: "pushed (tr @ acts) = pushed tr @ pushed acts"
  by (induction tr rule: pushed.induct) simp_all

lemma popped_append: "popped (tr @ acts) = popped tr @ popped acts"
  by (induction tr rule: popped.induct) simp_all

lemma packets_from_append:
  "packets_from ps (tr @ acts) \<longleftrightarrow> packets_from ps tr \<and> packets_from (ps @ popped tr) acts"
  by (induction ps tr rule: packets_from.induct) simp_all

lemma lastn_0: "lastn 0 xs = []"
  by (simp add: lastn_def)

lemma lastn_snoc: "i \<le> length xs \<Longrightarrow> lastn (Suc i) (xs @ [x]) = lastn i xs @ [x]"
  by (simp add: lastn_def Suc_diff_le)

lemma length_lastn: "i \<le> length xs \<Longrightarrow> length (lastn i xs) = i"
  by (simp add: lastn_def)

lemma serialize_Nil: "serialize [] = []"
  by (simp add: serialize_def)

lemma serialize_snoc: "serialize (ws @ [w]) = serialize ws @ le_bytes w"
  by (simp add: serialize_def)

lemma serialize_Cons: "serialize (w # ws) = le_bytes w @ serialize ws"
  by (simp add: serialize_def)

lemma length_serialize: "length (serialize ws) = 4 * length ws"
  by (induction ws) (simp_all add: serialize_Nil serialize_Cons le_bytes_def)

lemma byte_and: "(ucast (w AND 0xFF) :: u8) = ucast (w :: u32)"
proof -
  have m: "(0xFF :: u32) = mask 8" by (simp add: mask_eq_exp_minus_1)
  show ?thesis unfolding m by (rule bit_word_eqI) (auto simp: bit_simps)
qed

lemma store_le_length: "length (store_le pkt i ev) = length pkt"
  by (simp add: store_le_def)

lemma store_le_take:
  assumes "length pkt = n * 4" and "i < n"
  shows "take ((i + 1) * 4) (store_le pkt i ev) = take (i * 4) pkt @ le_bytes ev"
proof (rule nth_equalityI)
  show "length (take ((i + 1) * 4) (store_le pkt i ev)) = length (take (i * 4) pkt @ le_bytes ev)"
    using assms by (simp add: store_le_def le_bytes_def)
next
  fix k assume "k < length (take ((i + 1) * 4) (store_le pkt i ev))"
  then have k: "k < i * 4 + 4" "k < length pkt" using assms by (simp_all add: store_le_def)
  consider "k < i * 4" | "k = i * 4" | "k = i * 4 + 1" | "k = i * 4 + 2" | "k = i * 4 + 3"
    using k by linarith
  then show "take ((i + 1) * 4) (store_le pkt i ev) ! k = (take (i * 4) pkt @ le_bytes ev) ! k"
  proof cases
    case 1
    then show ?thesis using k by (simp add: store_le_def nth_append)
  next
    case 2
    then show ?thesis using k by (simp add: store_le_def nth_append le_bytes_def byte_and)
  next
    case 3
    then show ?thesis using k by (simp add: store_le_def nth_append le_bytes_def byte_and)
  next
    case 4
    then show ?thesis using k by (simp add: store_le_def nth_append le_bytes_def byte_and)
  next
    case 5
    then show ?thesis using k by (simp add: store_le_def nth_append le_bytes_def byte_and)
  qed
qed

subsection \<open>The FIFO relation\<close>

lemma length_contents: "length (contents c) = occupancy c"
  by (simp add: contents_def)

lemma fifo_inv_exact:
  assumes "fifo_inv c tr" and "\<not> irqs_off c"
  shows "pushed tr = popped tr @ contents c"
proof -
  have t: "take (length (popped tr) + occupancy c) (pushed tr) = popped tr @ contents c"
    and n: "\<not> length (popped tr) + occupancy c < length (pushed tr)"
    using assms by (auto simp: fifo_inv_def split: if_splits)
  then show ?thesis by simp
qed

lemma fifo_inv_push:
  assumes "fifo_inv c tr" and "\<not> irqs_off c"
    and "contents c' = contents c @ [d]" and "occupancy c' = occupancy c + 1"
  shows "fifo_inv c' (tr @ [Pushed d])"
  using fifo_inv_exact [OF assms(1,2)] assms(3,4)
  by (simp add: fifo_inv_def pushed_append popped_append length_contents [symmetric])

lemma fifo_inv_pop:
  assumes "fifo_inv c tr" and "0 < occupancy c"
    and "contents c = ev # contents c'" and "occupancy c' = occupancy c - 1"
    and "irqs_off c' = irqs_off c"
  shows "fifo_inv c' (tr @ [Popped ev])"
  using assms
  by (simp add: fifo_inv_def pushed_append popped_append)

lemma fifo_inv_reset:
  assumes "fifo_inv c tr" and "irqs_off c'" and "occupancy c' = 0"
  shows "fifo_inv c' tr"
proof -
  have "take (length (popped tr) + occupancy c) (pushed tr) = popped tr @ contents c"
    using assms(1) by (simp add: fifo_inv_def)
  then have "take (length (popped tr)) (take (length (popped tr) + occupancy c) (pushed tr))
      = popped tr"
    by simp
  then have "take (length (popped tr)) (pushed tr) = popped tr"
    by (simp add: min_def)
  moreover have "contents c' = []"
    using assms(3) by (simp add: contents_def)
  ultimately show ?thesis
    using assms(2,3) by (simp add: fifo_inv_def)
qed

lemma fifo_inv_same:
  assumes "fifo_inv c tr" and "contents c' = contents c" and "occupancy c' = occupancy c"
    and "irqs_off c \<Longrightarrow> irqs_off c'" and "pushed acts = []" and "popped acts = []"
  shows "fifo_inv c' (tr @ acts)"
  using assms by (auto simp: fifo_inv_def pushed_append popped_append split: if_splits)


subsection \<open>The callback keeps the invariant\<close>

lemma push_event_unchanged:
  "read_index (push_event d c) = read_index c"
  "pc (push_event d c) = pc c"
  "exti4_enabled (push_event d c) = exti4_enabled c"
  "exti9_5_enabled (push_event d c) = exti9_5_enabled c"
  "last_usb_send_time (push_event d c) = last_usb_send_time c"
  "tim2_running (push_event d c) = tim2_running c"
  "tim3_running (push_event d c) = tim3_running c"
  by (simp_all add: push_event_def Let_def)

lemma irqs_off_push: "irqs_off (push_event d c) = irqs_off c"
  by (simp add: irqs_off_def push_event_unchanged)

lemma draining_push:
  assumes "draining c tr n pkt i" and "occupancy c \<le> occupancy c'" and "popped acts = []"
  shows "draining c' (tr @ acts) n pkt i"
  using assms by (simp add: draining_def popped_append)

lemma draining_occupancy: "draining c tr n pkt i \<Longrightarrow> 0 < occupancy c"
  unfolding draining_def by arith

lemma inv_push:
  assumes "sys_inv c tr" and "\<not> irqs_off c" and "push_fits c"
  shows "sys_inv (push_event d c) (tr @ [Pushed d])"
proof -
  let ?c' = "push_event d c"
  have occ: "occupancy c \<le> unat MAX_EVENTS" and fifo: "fifo_inv c tr"
    and pcv: "pc_inv c tr" and pk: "packets_from [] tr"
    using assms(1) by (simp_all add: sys_inv_def)
  have occ': "occupancy ?c' = occupancy c + 1"
    by (rule occupancy_push [OF occ assms(3)])
  have cont': "contents ?c' = contents c @ [d]"
    by (rule contents_push [OF occ assms(3)])
  have "occupancy ?c' \<le> unat MAX_EVENTS"
    using occ' push_fits_iff [OF occ] assms(3) by simp
  moreover have "fifo_inv ?c' (tr @ [Pushed d])"
    by (rule fifo_inv_push [OF fifo assms(2) cont' occ'])
  moreover have "pc_inv ?c' (tr @ [Pushed d])"
  proof (cases "pc c")
    case (Drain_Load now n pkt i)
    then show ?thesis
      using pcv occ' by (simp add: pc_inv_def push_event_unchanged draining_push)
  next
    case (Drain_Advance now n pkt i ev)
    then have d: "draining c tr n pkt i" and ev: "ev = event_buffer c (slot (read_index c))"
      using pcv by (simp_all add: pc_inv_def)
    have "event_buffer ?c' (slot (read_index c)) = event_buffer c (slot (read_index c))"
      by (rule head_slot_push [OF occ draining_occupancy [OF d]])
    then show ?thesis
      using Drain_Advance d ev occ'
      by (simp add: pc_inv_def push_event_unchanged draining_push)
  next
    case (Transmit now n pkt)
    then show ?thesis
      using pcv
      by (simp add: pc_inv_def push_event_unchanged popped_append length_serialize length_lastn)
  next
    case Stop_Reset
    then show ?thesis
      using pcv by (simp add: pc_inv_def push_event_unchanged irqs_off_push)
  qed (simp_all add: pc_inv_def push_event_unchanged)
  moreover have "packets_from [] (tr @ [Pushed d])"
    using pk by (simp add: packets_from_append)
  ultimately show ?thesis by (simp add: sys_inv_def)
qed

lemma inv_silent:
  assumes "sys_inv c tr" and "pushed acts = []" and "popped acts = []"
    and "packets_from (popped tr) acts"
  shows "sys_inv c (tr @ acts)"
proof -
  have "fifo_inv c (tr @ acts)"
    using assms by (intro fifo_inv_same [of c tr]) (simp_all add: sys_inv_def)
  moreover have "pc_inv c (tr @ acts)"
    using assms(1,3)
    by (cases "pc c")
      (simp_all add: sys_inv_def pc_inv_def draining_def popped_append length_serialize length_lastn)
  ultimately show ?thesis
    using assms by (simp add: sys_inv_def packets_from_append)
qed

lemma irq_enabled_not_off: "irq_enabled n c \<Longrightarrow> \<not> irqs_off c"
  by (cases n) (simp_all add: irqs_off_def)

lemma inv_edge:
  assumes "sys_inv c tr" and "step hal (Edge n inp) c = (c', acts)"
  shows "sys_inv c' (tr @ acts)"
proof (cases "irq_enabled n c")
  case False
  then show ?thesis using assms by simp
next
  case en: True
  show ?thesis
  proof (cases "channel_of_pin hal (GPIO_Pin inp)")
    case None
    then show ?thesis
      using assms en by (simp add: HAL_GPIO_EXTI_Callback_def callback_actions_def)
  next
    case (Some ch)
    show ?thesis
    proof (cases "push_fits c")
      case True
      then have "c' = push_event (event_word hal inp ch) c"
        and "acts = [Pushed (event_word hal inp ch)]"
        using assms(2) en Some
        by (auto simp: HAL_GPIO_EXTI_Callback_def callback_actions_def)
      then show ?thesis
        using inv_push [OF assms(1) irq_enabled_not_off [OF en] True] by simp
    next
      case False
      then have "c' = c" and "acts = [Dropped (event_word hal inp ch)]"
        using assms(2) en Some
        by (auto simp: HAL_GPIO_EXTI_Callback_def callback_actions_def push_event_full)
      then show ?thesis
        using inv_silent [OF assms(1), of acts] by simp
    qed
  qed
qed


subsection \<open>The main loop keeps the invariant\<close>

lemma occupancy_cong:
  "write_index c' = write_index c \<Longrightarrow> read_index c' = read_index c
   \<Longrightarrow> occupancy c' = occupancy c"
  by (simp add: occupancy_def)

lemma contents_cong:
  "write_index c' = write_index c \<Longrightarrow> read_index c' = read_index c
   \<Longrightarrow> event_buffer c' = event_buffer c \<Longrightarrow> contents c' = contents c"
  by (simp add: contents_def occupancy_def)

lemma inv_frame:
  assumes "sys_inv c tr"
    and "write_index c' = write_index c" and "read_index c' = read_index c"
    and "event_buffer c' = event_buffer c"
    and "irqs_off c \<Longrightarrow> irqs_off c'"
    and "pc_inv c' tr"
  shows "sys_inv c' tr"
proof -
  have o: "occupancy c' = occupancy c" by (rule occupancy_cong [OF assms(2,3)])
  have k: "contents c' = contents c" by (rule contents_cong [OF assms(2,3,4)])
  have "fifo_inv c' (tr @ [])"
    using assms(1,5) by (intro fifo_inv_same [OF _ k o]) (simp_all add: sys_inv_def)
  then show ?thesis
    using assms(1,6) o by (simp add: sys_inv_def)
qed

lemma unat_min_chunk:
  fixes diff :: u32
  shows "unat (min EVENT_CHUNK_SIZE diff) \<le> unat EVENT_CHUNK_SIZE"
    and "unat (min EVENT_CHUNK_SIZE diff) \<le> unat diff"
  by (simp_all add: min_def word_le_nat_alt)

lemma inv_loop_top:
  assumes "sys_inv c tr" and "pc c = Loop_Top" and "main_step hal inp c = (c', acts)"
  shows "sys_inv c' (tr @ acts)"
proof -
  let ?n = "unat (min EVENT_CHUNK_SIZE (write_index c - read_index c))"
  have acts: "acts = []"
    using assms(2,3) by (auto simp: main_step_def Let_def split: if_splits)
  have c': "c' = c\<lparr>pc := pc c'\<rparr>"
    using assms(2,3) by (auto simp: main_step_def Let_def split: if_splits)
  have p: "pc c' = Stop_Check \<or> (0 < ?n \<and> pc c' = Drain_Load (hal_tick inp) ?n (replicate (?n * 4) 0) 0)"
    using assms(2,3) by (auto simp: main_step_def Let_def split: if_splits)
  have f: "write_index c' = write_index c" "read_index c' = read_index c"
    "event_buffer c' = event_buffer c" "irqs_off c' = irqs_off c"
    by (subst c', simp add: irqs_off_def)+
  have "pc_inv c' tr"
    using p
  proof
    assume "pc c' = Stop_Check"
    then show ?thesis by (simp add: pc_inv_def)
  next
    assume d: "0 < ?n \<and> pc c' = Drain_Load (hal_tick inp) ?n (replicate (?n * 4) 0) 0"
    have "draining c' tr ?n (replicate (?n * 4) 0) 0"
      using d unat_min_chunk [of "write_index c - read_index c"] f
      by (simp add: draining_def occupancy_def lastn_0 serialize_Nil)
    then show ?thesis using d by (simp add: pc_inv_def)
  qed
  then show ?thesis
    using inv_frame [OF assms(1) f(1,2,3)] f(4) acts by simp
qed

lemma inv_drain_load:
  assumes "sys_inv c tr" and "pc c = Drain_Load now n pkt i" and "main_step hal inp c = (c', acts)"
  shows "sys_inv c' (tr @ acts)"
proof -
  have acts: "acts = []"
    and c': "c' = c\<lparr>pc := Drain_Advance now n pkt i (event_buffer c (slot (read_index c)))\<rparr>"
    using assms(2,3) by (auto simp: main_step_def)
  have d: "draining c tr n pkt i"
    using assms(1,2) by (simp add: sys_inv_def pc_inv_def)
  have "draining c' tr n pkt i"
    using d by (simp add: c' draining_def occupancy_def)
  then have "pc_inv c' tr"
    by (simp add: c' pc_inv_def)
  then show ?thesis
    using inv_frame [OF assms(1), of c'] acts by (simp add: c' irqs_off_def)
qed

lemma inv_drain_advance:
  assumes "sys_inv c tr" and "pc c = Drain_Advance now n pkt i ev"
    and "main_step hal inp c = (c', acts)"
  shows "sys_inv c' (tr @ acts)"
proof -
  let ?pkt = "store_le pkt i ev"
  let ?p = "if i + 1 < n then Drain_Load now n ?pkt (i + 1) else Transmit now n ?pkt"
  have acts: "acts = [Popped ev]" and c': "c' = c\<lparr>read_index := read_index c + 1, pc := ?p\<rparr>"
    using assms(2,3) by (auto simp: main_step_def Let_def)
  have d: "draining c tr n pkt i" and ev: "ev = event_buffer c (slot (read_index c))"
    using assms(1,2) by (simp_all add: sys_inv_def pc_inv_def)
  have pos: "0 < occupancy c" by (rule draining_occupancy [OF d])
  have occ: "occupancy c' = occupancy c - 1"
    unfolding c' by (rule occupancy_pop [OF pos])
  have cont: "contents c = ev # contents c'"
    unfolding c' ev by (rule contents_pop [OF pos])
  have irq: "irqs_off c' = irqs_off c"
    by (simp add: c' irqs_off_def)
  have i: "i < n" "n \<le> unat EVENT_CHUNK_SIZE" "n - i \<le> occupancy c" "length pkt = n * 4"
    "i \<le> length (popped tr)" "take (i * 4) pkt = serialize (lastn i (popped tr))"
    using d by (simp_all add: draining_def)
  have pkt: "take ((i + 1) * 4) ?pkt = serialize (lastn (i + 1) (popped tr @ [ev]))"
    using store_le_take [OF i(4) i(1), of ev] i(5,6)
    by (simp add: lastn_snoc serialize_snoc)
  have "occupancy c \<le> unat MAX_EVENTS"
    using assms(1) by (simp add: sys_inv_def)
  then have "occupancy c' \<le> unat MAX_EVENTS"
    using occ by simp
  moreover have "fifo_inv c' (tr @ [Popped ev])"
    using assms(1) by (intro fifo_inv_pop [OF _ pos cont occ irq]) (simp add: sys_inv_def)
  moreover have "pc_inv c' (tr @ [Popped ev])"
  proof (cases "i + 1 < n")
    case True
    have "draining c' (tr @ [Popped ev]) n ?pkt (i + 1)"
      using True i pkt occ
      by (simp add: draining_def popped_append store_le_length)
    then show ?thesis using True by (simp add: c' pc_inv_def)
  next
    case False
    then have n: "n = i + 1" using i(1) by simp
    have len: "length ?pkt = n * 4"
      using i(4) by (simp add: store_le_length)
    then have "?pkt = take ((i + 1) * 4) ?pkt"
      using n by simp
    then have ser: "?pkt = serialize (lastn n (popped (tr @ [Popped ev])))"
      using pkt n by (simp add: popped_append)
    have "n \<le> length (popped (tr @ [Popped ev]))"
      using i(5) n by (simp add: popped_append)
    moreover have "pc c' = Transmit now n ?pkt"
      using False by (simp add: c')
    moreover have "0 < n" using n by simp
    ultimately show ?thesis
      using i(2) len ser unfolding pc_inv_def by simp
  qed
  moreover have "packets_from [] (tr @ [Popped ev])"
    using assms(1) by (simp add: sys_inv_def packets_from_append)
  ultimately show ?thesis by (simp add: sys_inv_def acts)
qed

lemma inv_transmit:
  assumes "sys_inv c tr" and "pc c = Transmit now n pkt" and "main_step hal inp c = (c', acts)"
  shows "sys_inv c' (tr @ acts)"
proof -
  have acts: "acts = [Sent (take (n * 4) pkt) (tx_status inp)]"
    and c': "c' = c \<or> c' = c\<lparr>last_usb_send_time := now, pc := Stop_Check\<rparr>"
    using assms(2,3) by (auto simp: main_step_def split: if_splits)
  have t: "length pkt = n * 4" "n \<le> length (popped tr)"
    "pkt = serialize (lastn n (popped tr))"
    using assms(1,2) by (auto simp: sys_inv_def pc_inv_def)
  have acts': "acts = [Sent pkt (tx_status inp)]"
    using acts t(1) by simp
  have "length pkt div 4 = n" using t(1) by simp
  then have "packets_from (popped tr) [Sent pkt (tx_status inp)]"
    using t(1,3) by simp
  then have a: "sys_inv c (tr @ acts)"
    unfolding acts' by (intro inv_silent [OF assms(1)]) simp_all
  show ?thesis
    using c'
  proof
    assume "c' = c"
    then show ?thesis using a by simp
  next
    assume "c' = c\<lparr>last_usb_send_time := now, pc := Stop_Check\<rparr>"
    then show ?thesis
      using inv_frame [OF a, of c'] by (simp add: irqs_off_def pc_inv_def)
  qed
qed

lemma inv_stop:
  assumes "sys_inv c tr" and "pc c = Stop_Check \<or> pc c = Stop_Disable \<or> pc c = Stop_Reset"
    and "main_step hal inp c = (c', acts)"
  shows "sys_inv c' (tr @ acts)"
  using assms(2)
proof (elim disjE)
  assume "pc c = Stop_Check"
  then have "acts = []" and "c' = c\<lparr>pc := Stop_Disable\<rparr> \<or> c' = c\<lparr>pc := Loop_Top\<rparr>"
    using assms(3) by (auto simp: main_step_def split: if_splits)
  then show ?thesis
    using inv_frame [OF assms(1), of c'] by (auto simp: irqs_off_def pc_inv_def)
next
  assume "pc c = Stop_Disable"
  then have "acts = []"
    and "c' = c\<lparr>tim2_running := False, tim3_running := False,
             exti4_enabled := False, exti9_5_enabled := False, pc := Stop_Reset\<rparr>"
    using assms(3) by (auto simp: main_step_def)
  then show ?thesis
    using inv_frame [OF assms(1), of c'] by (simp add: irqs_off_def pc_inv_def)
next
  assume p: "pc c = Stop_Reset"
  then have acts: "acts = []"
    and c': "c' = c\<lparr>write_index := 0, read_index := 0, pc := Loop_Top\<rparr>"
    using assms(3) by (auto simp: main_step_def)
  have off: "irqs_off c'"
    using assms(1) p by (simp add: sys_inv_def pc_inv_def c' irqs_off_def)
  have occ: "occupancy c' = 0"
    by (simp add: c' occupancy_def)
  have "fifo_inv c' tr"
    using assms(1) by (intro fifo_inv_reset [of c tr c', OF _ off occ]) (simp add: sys_inv_def)
  then show ?thesis
    using assms(1) occ by (simp add: sys_inv_def acts) (simp add: c' pc_inv_def)
qed

lemma inv_main:
  assumes "sys_inv c tr" and "main_step hal inp c = (c', acts)"
  shows "sys_inv c' (tr @ acts)"
proof (cases "pc c")
  case Loop_Top
  then show ?thesis by (rule inv_loop_top [OF assms(1) _ assms(2)])
next
  case (Drain_Load now n pkt i)
  then show ?thesis by (rule inv_drain_load [OF assms(1) _ assms(2)])
next
  case (Drain_Advance now n pkt i ev)
  then show ?thesis by (rule inv_drain_advance [OF assms(1) _ assms(2)])
next
  case (Transmit now n pkt)
  then show ?thesis by (rule inv_transmit [OF assms(1) _ assms(2)])
qed (use inv_stop [OF assms(1) _ assms(2)] in simp_all)

lemma inv_step:
  assumes "sys_inv c tr" and "step hal e c = (c', acts)"
  shows "sys_inv c' (tr @ acts)"
proof (cases e)
  case (Edge n inp)
  then show ?thesis using inv_edge [OF assms(1)] assms(2) by simp
next
  case (Main inp)
  then show ?thesis using inv_main [OF assms(1)] assms(2) by simp
qed

lemma inv_run:
  assumes "sys_inv c tr" and "run hal es (c, tr) = (c', tr')"
  shows "sys_inv c' tr'"
  using assms
proof (induction es arbitrary: c tr)
  case Nil
  then show ?case by simp
next
  case (Cons e es)
  obtain c1 acts where s: "step hal e c = (c1, acts)" by (cases "step hal e c")
  then have "run hal es (c1, tr @ acts) = (c', tr')"
    using Cons.prems(2) by simp
  then show ?case
    using Cons.IH [OF inv_step [OF Cons.prems(1) s]] by simp
qed

lemma inv_boot: "sys_inv boot []"
  by (simp add: sys_inv_def boot_def occupancy_def fifo_inv_def contents_def pc_inv_def)

lemma inv_exec: "sys_inv (fst (exec hal es)) (snd (exec hal es))"
  using inv_run [OF inv_boot, of hal es] by (cases "exec hal es") (simp add: exec_def)

subsection \<open>Runs\<close>

lemma run_append: "run hal (es @ es') ct = run hal es' (run hal es ct)"
proof (induction es arbitrary: ct)
  case Nil
  then show ?case by simp
next
  case (Cons e es)
  then show ?case by (cases ct) (simp split: prod.splits)
qed

lemma occupancy_advance:
  assumes "m \<le> occupancy c"
  shows "occupancy (c\<lparr>read_index := read_index c + of_nat m, pc := p\<rparr>) = occupancy c - m"
proof -
  let ?d = "write_index c - read_index c"
  have lt: "unat ?d < 2 ^ 32" using unsigned_less [of ?d] by simp
  have m: "unat (of_nat m :: u32) = m"
    using assms lt by (simp add: occupancy_def unat_of_nat)
  then have le: "(of_nat m :: u32) \<le> ?d"
    using assms by (simp add: word_le_nat_alt occupancy_def)
  have eq: "write_index c - (read_index c + of_nat m) = ?d - of_nat m" by simp
  have "unat (write_index c - (read_index c + of_nat m)) = unat ?d - m"
    unfolding eq using unat_sub [OF le] m by simp
  then show ?thesis by (simp add: occupancy_def)
qed

lemma contents_advance:
  assumes "m \<le> occupancy c"
  shows "contents (c\<lparr>read_index := read_index c + of_nat m, pc := p\<rparr>) = drop m (contents c)"
proof -
  have "map (\<lambda>k. event_buffer c (slot (read_index c + of_nat m + of_nat k))) [0..<occupancy c - m]
      = map (\<lambda>k. event_buffer c (slot (read_index c + of_nat k))) (map (\<lambda>k. m + k) [0..<occupancy c - m])"
    by (simp add: comp_def add.assoc)
  also have "map (\<lambda>k. m + k) [0..<occupancy c - m] = [m..<occupancy c]"
    using assms map_add_upt [of m "occupancy c - m"] by (simp add: add.commute)
  also have "\<dots> = drop m [0..<occupancy c]" by simp
  finally show ?thesis
    unfolding contents_def occupancy_advance [OF assms]
    by (simp add: drop_map)
qed


lemma drain_two_steps:
  assumes "pc c = Drain_Load now n pkt i"
  shows "run hal (Main a # Main b # es) (c, tr)
    = run hal es
        (c\<lparr>read_index := read_index c + 1,
           pc := (if i + 1 < n
                  then Drain_Load now n (store_le pkt i (event_buffer c (slot (read_index c)))) (i + 1)
                  else Transmit now n (store_le pkt i (event_buffer c (slot (read_index c)))))\<rparr>,
         tr @ [Popped (event_buffer c (slot (read_index c)))])"
  using assms by (simp add: main_step_def Let_def)

lemma drain_run:
  assumes "pc c = Drain_Load now n pkt i" and "i < n" and "n - i \<le> occupancy c"
    and "length pkt = n * 4" and "length ins = 2 * (n - i)"
  shows "run hal (map Main ins) (c, tr)
    = (c\<lparr>read_index := read_index c + of_nat (n - i),
          pc := Transmit now n (take (i * 4) pkt @ serialize (take (n - i) (contents c)))\<rparr>,
       tr @ map Popped (take (n - i) (contents c)))"
  using assms
proof (induction "n - i" arbitrary: i c tr pkt ins)
  case 0
  then show ?case by simp
next
  case (Suc k)
  define ev where "ev = event_buffer c (slot (read_index c))"
  define pkt1 where "pkt1 = store_le pkt i ev"
  obtain a b ins' where ins: "ins = a # b # ins'" and len': "length ins' = 2 * k"
    using Suc.prems(5) Suc.hyps(2) by (cases ins; cases "tl ins") auto
  have pos: "0 < occupancy c" using Suc.prems(2,3) by simp
  have tk: "take ((i + 1) * 4) pkt1 = take (i * 4) pkt @ le_bytes ev"
    unfolding pkt1_def by (rule store_le_take [OF Suc.prems(4,2)])
  have len1: "length pkt1 = n * 4"
    by (simp add: pkt1_def store_le_length Suc.prems(4))
  show ?case
  proof (cases "i + 1 < n")
    case True
    define c1 where "c1 = c\<lparr>read_index := read_index c + 1, pc := Drain_Load now n pkt1 (i + 1)\<rparr>"
    have two: "run hal (map Main ins) (c, tr) = run hal (map Main ins') (c1, tr @ [Popped ev])"
      unfolding ins c1_def pkt1_def ev_def
      using drain_two_steps [OF Suc.prems(1), of hal a b "map Main ins'" tr] True by simp
    have cont: "contents c = ev # contents c1"
      unfolding c1_def ev_def by (rule contents_pop [OF pos])
    have occ1: "occupancy c1 = occupancy c - 1"
      unfolding c1_def by (rule occupancy_pop [OF pos])
    have k: "k = n - (i + 1)" using Suc.hyps(2) by simp
    have S: "n - i = Suc (n - (i + 1))" using True by simp
    have p1: "pc c1 = Drain_Load now n pkt1 (i + 1)" by (simp add: c1_def)
    have o1: "n - (i + 1) \<le> occupancy c1" using Suc.prems(3) occ1 by simp
    have l1: "length ins' = 2 * (n - (i + 1))" using len' k by simp
    have ih: "run hal (map Main ins') (c1, tr @ [Popped ev])
      = (c1\<lparr>read_index := read_index c1 + of_nat (n - (i + 1)),
           pc := Transmit now n (take ((i + 1) * 4) pkt1
                   @ serialize (take (n - (i + 1)) (contents c1)))\<rparr>,
         (tr @ [Popped ev]) @ map Popped (take (n - (i + 1)) (contents c1)))"
      by (rule Suc.hyps(1) [OF k p1 True o1 len1 l1])
    have "(of_nat (n - i) :: u32) = 1 + of_nat (n - (i + 1))"
      by (subst S) (simp only: of_nat_Suc)
    then have idx: "read_index c1 + of_nat (n - (i + 1)) = read_index c + of_nat (n - i)"
      by (simp add: c1_def)
    have pk: "take ((i + 1) * 4) pkt1 @ serialize (take (n - (i + 1)) (contents c1))
        = take (i * 4) pkt @ serialize (take (n - i) (contents c))"
      unfolding tk cont S by (simp add: serialize_Cons)
    have trc: "(tr @ [Popped ev]) @ map Popped (take (n - (i + 1)) (contents c1))
        = tr @ map Popped (take (n - i) (contents c))"
      unfolding cont S by simp
    have rec: "c1\<lparr>read_index := x, pc := y\<rparr> = c\<lparr>read_index := x, pc := y\<rparr>" for x y
      by (simp add: c1_def)
    show ?thesis
      unfolding two ih idx pk trc rec ..
  next
    case False
    then have n: "n = i + 1" using Suc.prems(2) by simp
    define c1 where "c1 = c\<lparr>read_index := read_index c + 1, pc := Transmit now n pkt1\<rparr>"
    have e: "ins' = []" using len' Suc.hyps(2) n by simp
    have two: "run hal (map Main ins) (c, tr) = (c1, tr @ [Popped ev])"
      unfolding ins e c1_def pkt1_def ev_def
      using drain_two_steps [OF Suc.prems(1), of hal a b "[]" tr] False by simp
    have cont: "contents c = ev # contents c1"
      unfolding c1_def ev_def by (rule contents_pop [OF pos])
    have "pkt1 = take ((i + 1) * 4) pkt1"
      using len1 n by simp
    then have pk: "pkt1 = take (i * 4) pkt @ serialize (take (n - i) (contents c))"
      unfolding tk cont n by (simp add: serialize_Cons serialize_Nil)
    have trc: "tr @ [Popped ev] = tr @ map Popped (take (n - i) (contents c))"
      unfolding cont n by simp
    have "c1 = c\<lparr>read_index := read_index c + of_nat (n - i),
          pc := Transmit now n (take (i * 4) pkt @ serialize (take (n - i) (contents c)))\<rparr>"
      unfolding c1_def using pk n by simp
    then show ?thesis
      unfolding two trc by simp
  qed
qed



lemma unat_min_chunk_eq:
  fixes diff :: u32
  shows "unat (min EVENT_CHUNK_SIZE diff) = min 16 (unat diff)"
  by (simp add: min_def word_le_nat_alt EVENT_CHUNK_SIZE_def)

lemma chunk_le_iff: "EVENT_CHUNK_SIZE \<le> write_index c - read_index c \<longleftrightarrow> 16 \<le> occupancy c"
  by (simp add: word_le_nat_alt EVENT_CHUNK_SIZE_def occupancy_def)

lemma loop_top_fire:
  assumes "pc c = Loop_Top" and "0 < occupancy c" and "16 \<le> occupancy c \<or> USB_SEND_INTERVAL_MS \<le> hal_tick t - last_usb_send_time c"
  shows "main_step hal t c
    = (c\<lparr>pc := Drain_Load (hal_tick t) (min 16 (occupancy c))
               (replicate (min 16 (occupancy c) * 4) 0) 0\<rparr>, [])"
proof -
  have "unat (min EVENT_CHUNK_SIZE (write_index c - read_index c)) = min 16 (occupancy c)"
    by (simp add: unat_min_chunk_eq occupancy_def)
  then show ?thesis
    using assms by (simp add: main_step_def Let_def chunk_le_iff)
qed

lemma loop_top_idle:
  assumes "pc c = Loop_Top"
    and "occupancy c = 0
      \<or> (occupancy c < 16 \<and> hal_tick t - last_usb_send_time c < USB_SEND_INTERVAL_MS)"
  shows "main_step hal t c = (c\<lparr>pc := Stop_Check\<rparr>, [])"
proof -
  have "unat (min EVENT_CHUNK_SIZE (write_index c - read_index c)) = min 16 (occupancy c)"
    by (simp add: unat_min_chunk_eq occupancy_def)
  then show ?thesis
    using assms by (auto simp: main_step_def Let_def chunk_le_iff not_le)
qed

lemma fire_iteration:
  assumes "pc c = Loop_Top" and "0 < occupancy c" and "16 \<le> occupancy c \<or> USB_SEND_INTERVAL_MS \<le> hal_tick t - last_usb_send_time c"
    and "length d = 2 * min 16 (occupancy c)"
    and "tx_status s \<noteq> USBD_BUSY hal"
    and "get_32bit_timer (stop_reads k) < 2 ^ 29"
  shows "run hal (iteration t d s k) (c, tr)
    = (c\<lparr>read_index := read_index c + of_nat (min 16 (occupancy c)),
          last_usb_send_time := hal_tick t, pc := Loop_Top\<rparr>,
       tr @ map Popped (take (min 16 (occupancy c)) (contents c))
          @ [Sent (serialize (take (min 16 (occupancy c)) (contents c))) (tx_status s)])"
proof -
  define m where "m = min 16 (occupancy c)"
  define c0 where "c0 = c\<lparr>pc := Drain_Load (hal_tick t) m (replicate (m * 4) 0) 0\<rparr>"
  define pkt where "pkt = serialize (take m (contents c))"
  define c1 where "c1 = c\<lparr>read_index := read_index c + of_nat m, pc := Transmit (hal_tick t) m pkt\<rparr>"
  have m: "0 < m" "m \<le> occupancy c" using assms(2) by (simp_all add: m_def)
  have top: "main_step hal t c = (c0, [])"
    unfolding c0_def m_def by (rule loop_top_fire [OF assms(1,2,3)])
  have f0: "pc c0 = Drain_Load (hal_tick t) m (replicate (m * 4) 0) 0"
    "occupancy c0 = occupancy c" "contents c0 = contents c" "read_index c0 = read_index c"
    by (simp_all add: c0_def occupancy_def contents_def)
  have "run hal (map Main d) (c0, tr)
    = (c0\<lparr>read_index := read_index c0 + of_nat (m - 0),
          pc := Transmit (hal_tick t) m (take (0 * 4) (replicate (m * 4) 0)
                  @ serialize (take (m - 0) (contents c0)))\<rparr>,
       tr @ map Popped (take (m - 0) (contents c0)))"
    using m assms(4) f0(2) by (intro drain_run [OF f0(1)]) (simp_all add: m_def)
  then have drain: "run hal (map Main d) (c0, tr) = (c1, tr @ map Popped (take m (contents c)))"
    by (simp add: f0 c1_def pkt_def) (simp add: c0_def)
  have len: "length pkt = m * 4"
    using m by (simp add: pkt_def length_serialize length_contents)
  have tx: "main_step hal s c1
    = (c1\<lparr>last_usb_send_time := hal_tick t, pc := Stop_Check\<rparr>, [Sent pkt (tx_status s)])"
    using assms(5) len by (simp add: main_step_def c1_def)
  have chk: "main_step hal k (c1\<lparr>last_usb_send_time := hal_tick t, pc := Stop_Check\<rparr>)
    = (c1\<lparr>last_usb_send_time := hal_tick t, pc := Loop_Top\<rparr>, [])"
    using assms(6) by (simp add: main_step_def not_le)
  have "run hal (iteration t d s k) (c, tr)
      = run hal [Main s, Main k] (run hal (map Main d) (c0, tr))"
    unfolding iteration_def using top by (simp add: run_append)
  also have "\<dots> = (c1\<lparr>last_usb_send_time := hal_tick t, pc := Loop_Top\<rparr>,
       tr @ map Popped (take m (contents c)) @ [Sent pkt (tx_status s)])"
    unfolding drain using tx chk by simp
  finally show ?thesis
    unfolding m_def [symmetric] pkt_def by (simp add: c1_def)
qed

lemma fire_iteration_state:
  assumes "m \<le> occupancy c"
  shows "contents (c\<lparr>read_index := read_index c + of_nat m, last_usb_send_time := x, pc := p\<rparr>)
           = drop m (contents c)"
    and "occupancy (c\<lparr>read_index := read_index c + of_nat m, last_usb_send_time := x, pc := p\<rparr>)
           = occupancy c - m"
proof -
  let ?a = "c\<lparr>read_index := read_index c + of_nat m, last_usb_send_time := x, pc := p\<rparr>"
  let ?b = "c\<lparr>read_index := read_index c + of_nat m, pc := p\<rparr>"
  have "contents ?a = contents ?b" by (rule contents_cong) simp_all
  then show "contents ?a = drop m (contents c)"
    by (simp only: contents_advance [OF assms])
  have "occupancy ?a = occupancy ?b" by (rule occupancy_cong) simp_all
  then show "occupancy ?a = occupancy c - m"
    by (simp only: occupancy_advance [OF assms])
qed

text \<open>What the trace records of an edge: nothing when the line is disabled or the pin
  is unmapped; \<open>Pushed d\<close> exactly when \<open>d\<close> was stored at the slot of \<open>write_index\<close> and
  \<open>write_index\<close> advanced; \<open>Dropped d\<close> exactly when the state is unchanged.\<close>

lemma edge_step_cases:
  assumes "step hal (Edge n inp) c = (c', acts)"
  shows "(acts = [] \<and> c' = c)
    \<or> (\<exists>d. acts = [Pushed d] \<and> push_fits c
          \<and> c' = c\<lparr>event_buffer := (event_buffer c)(slot (write_index c) := d),
                    write_index := write_index c + 1\<rparr>)
    \<or> (\<exists>d. acts = [Dropped d] \<and> \<not> push_fits c \<and> c' = c)"
  using assms
  by (auto simp: HAL_GPIO_EXTI_Callback_def callback_actions_def push_event_fits
      push_event_full split: if_splits option.splits)

lemma pushes_accepted:
  assumes "\<forall>inp \<in> set inps. channel_of_pin hal (GPIO_Pin inp) \<noteq> None"
    and "length inps \<le> 1024"
  shows "write_index (fst (exec hal (map (Edge EXTI4_IRQn) inps))) = of_nat (length inps)
    \<and> read_index (fst (exec hal (map (Edge EXTI4_IRQn) inps))) = 0
    \<and> exti4_enabled (fst (exec hal (map (Edge EXTI4_IRQn) inps)))"
  using assms
proof (induction inps rule: rev_induct)
  case Nil
  then show ?case by (simp add: exec_def boot_def)
next
  case (snoc inp inps)
  obtain c tr where e: "exec hal (map (Edge EXTI4_IRQn) inps) = (c, tr)"
    by (cases "exec hal (map (Edge EXTI4_IRQn) inps)")
  have ih: "write_index c = of_nat (length inps)" "read_index c = 0" "exti4_enabled c"
    using snoc e by simp_all
  obtain ch where ch: "channel_of_pin hal (GPIO_Pin inp) = Some ch"
    using snoc.prems(1) by auto
  have n: "length inps < 1024" using snoc.prems(2) by simp
  then have "unat (of_nat (length inps) :: u32) = length inps"
    by (simp add: unat_of_nat)
  then have "occupancy c = length inps"
    using ih by (simp add: occupancy_def)
  then have fits: "push_fits c"
    using n push_fits_iff [of c] by (simp add: MAX_EVENTS_def)
  have "exec hal (map (Edge EXTI4_IRQn) (inps @ [inp])) = run hal [Edge EXTI4_IRQn inp] (c, tr)"
    using e by (simp add: exec_def run_append)
  then have "fst (exec hal (map (Edge EXTI4_IRQn) (inps @ [inp])))
      = push_event (event_word hal inp ch) c"
    using ih(3) ch by (simp add: HAL_GPIO_EXTI_Callback_def)
  then show ?case
    using ih fits by (simp add: push_event_fits)
qed

lemma packets_from_nth:
  assumes "packets_from ps tr" and "k < length tr" and "tr ! k = Sent pkt st"
  shows "4 dvd length pkt \<and> pkt = serialize (lastn (length pkt div 4) (ps @ popped (take k tr)))"
  using assms
  by (induction ps tr arbitrary: k rule: packets_from.induct)
    (auto simp: nth_Cons split: nat.splits)

lemma le_bytes_nth: "j < 4 \<Longrightarrow> le_bytes w ! j = ucast (drop_bit (8 * j) w)"
proof -
  assume "j < 4"
  then consider "j = 0" | "j = 1" | "j = 2" | "j = 3" by linarith
  then show ?thesis by cases (simp_all add: le_bytes_def)
qed

lemma serialize_nth:
  assumes "i < length ws" and "j < 4"
  shows "serialize ws ! (4 * i + j) = ucast (drop_bit (8 * j) (ws ! i))"
  using assms
proof (induction ws arbitrary: i)
  case Nil
  then show ?case by simp
next
  case (Cons w ws)
  have l: "length (le_bytes w) = 4" by (simp add: le_bytes_def)
  show ?case
  proof (cases i)
    case 0
    then show ?thesis
      using Cons.prems(2) by (simp add: serialize_Cons nth_append l le_bytes_nth)
  next
    case (Suc i')
    then have "serialize (w # ws) ! (4 * i + j) = serialize ws ! (4 * i' + j)"
      by (simp add: serialize_Cons nth_append l)
    then show ?thesis
      using Cons.IH [of i'] Cons.prems Suc by simp
  qed
qed

lemma sample_run_trace:
  "snd (exec stm32_hal sample_run)
     = [Pushed 0x80012345, Popped 0x80012345, Sent [0x45, 0x23, 0x01, 0x80] 0]"
  by code_simp

subsection \<open>FIFO order\<close>

text \<open>
  C1. In every run from boot, whatever the interleaving of edges (pushes through the
  callback) with the statements of the main loop (pops), and however many pushes
  there are, the sequence of words the loop took out of the buffer is the sequence of
  words the callback stored, in the order they were stored, up to the number taken
  out: nothing is reordered, duplicated or skipped.
\<close>

theorem fifo_order:
  "popped (snd (exec hal es))
     = take (length (popped (snd (exec hal es)))) (pushed (snd (exec hal es)))"
proof -
  let ?c = "fst (exec hal es)" and ?tr = "snd (exec hal es)"
  have "fifo_inv ?c ?tr"
    using inv_exec [of hal es] by (simp add: sys_inv_def)
  then have "take (length (popped ?tr) + occupancy ?c) (pushed ?tr) = popped ?tr @ contents ?c"
    by (simp add: fifo_inv_def)
  then have "take (length (popped ?tr)) (take (length (popped ?tr) + occupancy ?c) (pushed ?tr))
      = popped ?tr"
    by simp
  then show ?thesis by (simp add: min_def)
qed

text \<open>While an interrupt line is enabled nothing has been thrown away: the words stored
  are the words taken out followed by the content of the buffer.\<close>

lemma fifo_accounting:
  assumes "\<not> irqs_off (fst (exec hal es))"
  shows "pushed (snd (exec hal es))
    = popped (snd (exec hal es)) @ contents (fst (exec hal es))"
  using fifo_inv_exact [OF _ assms] inv_exec [of hal es] by (simp add: sys_inv_def)

subsection \<open>Occupancy\<close>

text \<open>
  C2. In every state reachable from boot the unsigned difference
  \<open>write_index - read_index\<close> is at most \<open>MAX_EVENTS = 1024\<close> (and at least 0, being
  unsigned); and when one more event would exceed \<open>MAX_EVENTS\<close>, the test of line 113
  fails and the callback returns the state unchanged: nothing is stored and
  \<open>write_index\<close> keeps its value.
\<close>

theorem occupancy_bound:
  "occupancy (fst (exec hal es)) \<le> unat MAX_EVENTS
   \<and> (unat MAX_EVENTS < occupancy (fst (exec hal es)) + 1 \<longrightarrow>
        \<not> push_fits (fst (exec hal es))
        \<and> HAL_GPIO_EXTI_Callback hal inp (fst (exec hal es)) = fst (exec hal es))"
proof -
  let ?c = "fst (exec hal es)"
  have occ: "occupancy ?c \<le> unat MAX_EVENTS"
    using inv_exec [of hal es] by (simp add: sys_inv_def)
  have "HAL_GPIO_EXTI_Callback hal inp ?c = ?c" if "\<not> push_fits ?c"
    using that by (simp add: HAL_GPIO_EXTI_Callback_def push_event_full split: option.splits)
  then show ?thesis
    using occ push_fits_iff [OF occ] by auto
qed

theorem occupancy_bound_witness:
  "unat MAX_EVENTS < occupancy (fst (exec stm32_hal (map (Edge EXTI4_IRQn) fill_inputs))) + 1
   \<and> occupancy (fst (exec stm32_hal (map (Edge EXTI4_IRQn) fill_inputs))) = 1024
   \<and> HAL_GPIO_EXTI_Callback stm32_hal (sample_edge 7)
        (fst (exec stm32_hal (map (Edge EXTI4_IRQn) fill_inputs)))
      = fst (exec stm32_hal (map (Edge EXTI4_IRQn) fill_inputs))"
proof -
  have "\<forall>inp \<in> set fill_inputs. channel_of_pin stm32_hal (GPIO_Pin inp) \<noteq> None"
    by (simp add: fill_inputs_def sample_edge_def channel_of_pin_def stm32_hal_def)
  moreover have "length fill_inputs = 1024" by (simp add: fill_inputs_def)
  ultimately have "occupancy (fst (exec stm32_hal (map (Edge EXTI4_IRQn) fill_inputs))) = 1024"
    using pushes_accepted [of fill_inputs stm32_hal] by (simp add: occupancy_def)
  then show ?thesis
    using occupancy_bound [of stm32_hal "map (Edge EXTI4_IRQn) fill_inputs" "sample_edge 7"]
    by (simp add: MAX_EVENTS_def)
qed

subsection \<open>Packets\<close>

text \<open>
  C7. Every packet handed to \<open>CDC_Transmit_FS\<close> in a run from boot has a length that
  is a multiple of 4, and it holds the words most recently taken out of the buffer,
  in the order they were taken out: byte \<open>j\<close> of the \<open>i\<close>-th group of four is bits
  \<open>8j .. 8j+7\<close> of the \<open>i\<close>-th of these words, least significant byte first.
\<close>

theorem packets_little_endian:
  assumes "k < length (snd (exec hal es))" and "snd (exec hal es) ! k = Sent pkt st"
  shows "4 dvd length pkt
    \<and> length pkt div 4 \<le> length (popped (take k (snd (exec hal es))))
    \<and> (\<forall>i < length pkt div 4. \<forall>j < 4.
          pkt ! (4 * i + j)
            = ucast (drop_bit (8 * j)
                (lastn (length pkt div 4) (popped (take k (snd (exec hal es)))) ! i)))"
proof -
  let ?ps = "popped (take k (snd (exec hal es)))"
  let ?m = "length pkt div 4"
  have "packets_from [] (snd (exec hal es))"
    using inv_exec [of hal es] by (simp add: sys_inv_def)
  from packets_from_nth [OF this assms]
  have d: "4 dvd length pkt" and p: "pkt = serialize (lastn ?m ?ps)"
    by simp_all
  have "length pkt = 4 * length (lastn ?m ?ps)"
    by (subst p) (simp add: length_serialize)
  then have len: "length (lastn ?m ?ps) = ?m" by simp
  then have le: "?m \<le> length ?ps"
    by (simp add: lastn_def) 
  have "pkt ! (4 * i + j) = ucast (drop_bit (8 * j) (lastn ?m ?ps ! i))"
    if "i < ?m" and "j < 4" for i j
    using serialize_nth [of i "lastn ?m ?ps" j] that len p by simp
  then show ?thesis using d le by simp
qed

theorem packets_little_endian_witness:
  "2 < length (snd (exec stm32_hal sample_run))
   \<and> snd (exec stm32_hal sample_run) ! 2 = Sent [0x45, 0x23, 0x01, 0x80] 0
   \<and> 4 dvd length [0x45, 0x23, 0x01, 0x80 :: u8]
   \<and> lastn 1 (popped (take 2 (snd (exec stm32_hal sample_run)))) = [0x80012345]
   \<and> [0x45, 0x23, 0x01, 0x80 :: u8] ! (4 * 0 + 0) = ucast (drop_bit (8 * 0) (0x80012345 :: u32))
   \<and> [0x45, 0x23, 0x01, 0x80 :: u8] ! (4 * 0 + 1) = ucast (drop_bit (8 * 1) (0x80012345 :: u32))
   \<and> [0x45, 0x23, 0x01, 0x80 :: u8] ! (4 * 0 + 2) = ucast (drop_bit (8 * 2) (0x80012345 :: u32))
   \<and> [0x45, 0x23, 0x01, 0x80 :: u8] ! (4 * 0 + 3) = ucast (drop_bit (8 * 3) (0x80012345 :: u32))"
proof -
  have h: "2 < length (snd (exec stm32_hal sample_run))"
    "snd (exec stm32_hal sample_run) ! 2 = Sent [0x45, 0x23, 0x01, 0x80] 0"
    by (simp_all add: sample_run_trace)
  have l: "lastn 1 (popped (take 2 (snd (exec stm32_hal sample_run)))) = [0x80012345]"
    by (simp add: sample_run_trace lastn_def)
  show ?thesis
    using h l packets_little_endian [OF h] by simp
qed

subsection \<open>Busy retry\<close>

lemma sent_packets_append: "sent_packets (tr @ acts) = sent_packets tr @ sent_packets acts"
  by (induction tr rule: sent_packets.induct) simp_all

lemma edge_step_local:
  assumes "step hal (Edge n inp) c = (c', acts)"
  shows "pc c' = pc c" and "last_usb_send_time c' = last_usb_send_time c"
    and "sent_packets acts = []" and "popped acts = []"
  using edge_step_cases [OF assms] by auto

lemma busy_run:
  assumes "pc c = Transmit now n pkt"
    and "\<forall>inp \<in> set (main_inputs es). tx_status inp = USBD_BUSY hal"
  shows "pc (fst (run hal es (c, tr))) = Transmit now n pkt
    \<and> last_usb_send_time (fst (run hal es (c, tr))) = last_usb_send_time c
    \<and> sent_packets (snd (run hal es (c, tr)))
        = sent_packets tr @ replicate (length (main_inputs es)) (take (n * 4) pkt)"
  using assms
proof (induction es arbitrary: c tr)
  case Nil
  then show ?case by simp
next
  case (Cons e es)
  show ?case
  proof (cases e)
    case (Edge m inp)
    obtain c' acts where s: "step hal (Edge m inp) c = (c', acts)"
      by (cases "step hal (Edge m inp) c")
    note l = edge_step_local [OF s]
    have "pc c' = Transmit now n pkt" using l(1) Cons.prems(1) by simp
    moreover have "\<forall>inp \<in> set (main_inputs es). tx_status inp = USBD_BUSY hal"
      using Cons.prems(2) Edge by simp
    ultimately show ?thesis
      using Cons.IH [of c' "tr @ acts"] Edge s l
      by (simp add: sent_packets_append)
  next
    case (Main inp)
    then have b: "tx_status inp = USBD_BUSY hal" using Cons.prems(2) by simp
    then have s: "step hal (Main inp) c = (c, [Sent (take (n * 4) pkt) (tx_status inp)])"
      using Cons.prems(1) by (simp add: main_step_def)
    have "\<forall>inp \<in> set (main_inputs es). tx_status inp = USBD_BUSY hal"
      using Cons.prems(2) Main by simp
    then show ?thesis
      using Cons.IH [OF Cons.prems(1), of "tr @ [Sent (take (n * 4) pkt) (tx_status inp)]"] Main s
      by (simp add: sent_packets_append replicate_append_same)
  qed
qed

text \<open>
  C5. From the statement of line 194 with packet \<open>usb_packet\<close>: when the transport
  reports busy on the first K calls (the run \<open>es\<close> holds K statements of the main
  loop, all reading \<open>USBD_BUSY\<close>, with edges interleaved at will) and something else
  on call K+1, then \<open>CDC_Transmit_FS\<close> is called exactly K+1 times, each time with
  the same bytes; after the K busy calls \<open>last_usb_send_time\<close> still has its old
  value and the loop is still at line 194; after call K+1 \<open>last_usb_send_time\<close> is
  \<open>now\<close>.
\<close>

theorem busy_retry:
  assumes "pc c = Transmit now n pkt"
    and "\<forall>inp \<in> set (main_inputs es). tx_status inp = USBD_BUSY hal"
    and "tx_status okin \<noteq> USBD_BUSY hal"
  shows "sent_packets (snd (run hal es (c, [])))
           = replicate (length (main_inputs es)) (take (n * 4) pkt)
    \<and> last_usb_send_time (fst (run hal es (c, []))) = last_usb_send_time c
    \<and> pc (fst (run hal es (c, []))) = Transmit now n pkt
    \<and> sent_packets (snd (run hal (es @ [Main okin]) (c, [])))
           = replicate (length (main_inputs es) + 1) (take (n * 4) pkt)
    \<and> last_usb_send_time (fst (run hal (es @ [Main okin]) (c, []))) = now
    \<and> pc (fst (run hal (es @ [Main okin]) (c, []))) = Stop_Check"
proof -
  obtain c1 tr1 where r: "run hal es (c, []) = (c1, tr1)"
    by (cases "run hal es (c, [])")
  have b: "pc c1 = Transmit now n pkt" "last_usb_send_time c1 = last_usb_send_time c"
    "sent_packets tr1 = replicate (length (main_inputs es)) (take (n * 4) pkt)"
    using busy_run [OF assms(1,2), of "[]"] r by simp_all
  have "run hal (es @ [Main okin]) (c, [])
      = (c1\<lparr>last_usb_send_time := now, pc := Stop_Check\<rparr>,
         tr1 @ [Sent (take (n * 4) pkt) (tx_status okin)])"
    using b(1) assms(3) by (simp add: run_append r main_step_def)
  then show ?thesis
    using b r by (simp add: sent_packets_append replicate_append_same)
qed

theorem busy_retry_witness:
  "pc transmit_state = Transmit 5 1 [0x45, 0x23, 0x01, 0x80]
   \<and> main_inputs [Main busy_main, Edge EXTI4_IRQn (sample_edge 9), Main busy_main]
        = [busy_main, busy_main]
   \<and> tx_status busy_main = USBD_BUSY stm32_hal
   \<and> tx_status sample_main \<noteq> USBD_BUSY stm32_hal
   \<and> sent_packets (snd (run stm32_hal
        ([Main busy_main, Edge EXTI4_IRQn (sample_edge 9), Main busy_main] @ [Main sample_main])
        (transmit_state, [])))
      = [ [0x45, 0x23, 0x01, 0x80], [0x45, 0x23, 0x01, 0x80], [0x45, 0x23, 0x01, 0x80] ]
   \<and> last_usb_send_time (fst (run stm32_hal
        [Main busy_main, Edge EXTI4_IRQn (sample_edge 9), Main busy_main]
        (transmit_state, []))) = last_usb_send_time transmit_state"
proof -
  have h1: "pc transmit_state = Transmit 5 1 [0x45, 0x23, 0x01, 0x80]"
    unfolding transmit_state_def by code_simp
  have h2: "\<forall>inp \<in> set (main_inputs [Main busy_main, Edge EXTI4_IRQn (sample_edge 9), Main busy_main]).
         tx_status inp = USBD_BUSY stm32_hal"
    by (simp add: busy_main_def stm32_hal_def)
  have h3: "tx_status sample_main \<noteq> USBD_BUSY stm32_hal"
    by (simp add: sample_main_def stm32_hal_def)
  show ?thesis
    using h1 h3 busy_retry [OF h1 h2 h3]
    by (simp add: numeral_eq_Suc busy_main_def stm32_hal_def)
qed

subsection \<open>Session stop\<close>

lemma stopped_step:
  assumes "stopped c" and "step hal e c = (c', acts)"
  shows "stopped c' \<and> acts = [] \<and> event_buffer c' = event_buffer c"
proof (cases e)
  case (Edge n inp)
  then have "\<not> irq_enabled n c"
    using assms(1) irq_enabled_not_off [of n c] by (auto simp: stopped_def)
  then show ?thesis using assms Edge by simp
next
  case (Main inp)
  have z: "unat (min EVENT_CHUNK_SIZE (0 :: u32)) = 0" by simp
  have "\<not> EVENT_CHUNK_SIZE \<le> (0 :: u32)" by (simp add: EVENT_CHUNK_SIZE_def)
  then show ?thesis
    using assms Main z
    by (auto simp: stopped_def main_step_def irqs_off_def Let_def split: if_splits)
qed

lemma stopped_run:
  assumes "stopped c"
  shows "stopped (fst (run hal es (c, tr))) \<and> snd (run hal es (c, tr)) = tr
    \<and> event_buffer (fst (run hal es (c, tr))) = event_buffer c"
  using assms
proof (induction es arbitrary: c tr)
  case Nil
  then show ?case by simp
next
  case (Cons e es)
  obtain c' acts where s: "step hal e c = (c', acts)" by (cases "step hal e c")
  from stopped_step [OF Cons.prems s] Cons.IH [of c' tr] s
  show ?case by simp
qed

lemma disabled_edges:
  assumes "irqs_off c"
  shows "run hal (edges xs) (c, tr) = (c, tr)"
proof (induction xs)
  case Nil
  then show ?case by (simp add: edges_def)
next
  case (Cons x xs)
  obtain n inp where x: "x = (n, inp)" by (cases x)
  have "\<not> irq_enabled n c"
    using assms irq_enabled_not_off [of n c] by auto
  then show ?case using Cons x by (simp add: edges_def)
qed

text \<open>The callback has no test of its own for the session being over: invoked in a
  stopped state with a channel pin it stores the event. After the stop the buffer
  stays empty because no edge is delivered, not because the callback declines.\<close>

lemma callback_in_stopped_state:
  assumes "stopped c" and "channel_of_pin hal (GPIO_Pin inp) = Some ch"
  shows "write_index (HAL_GPIO_EXTI_Callback hal inp c) = 1"
proof -
  have "push_fits c"
    using assms(1) by (simp add: stopped_def push_fits_def MAX_EVENTS_def)
  then show ?thesis
    using assms by (simp add: HAL_GPIO_EXTI_Callback_def push_event_fits stopped_def)
qed

text \<open>
  C8. When the check of line 200 reads a tick of at least \<open>2^29\<close>: the next statement
  disables both interrupt lines and leaves the cursors alone; edges raised after
  that and before the cursors are reset are not delivered; the reset leaves both
  cursors 0; and whatever edges and statements follow, both cursors stay 0, the
  buffer keeps its content and the trace shows nothing more (in particular no
  stored event).
\<close>

theorem stop_transition:
  assumes "pc c = Stop_Check" and "2 ^ 29 \<le> get_32bit_timer (stop_reads i0)"
  shows "fst (run hal (Main i0 # Main i1 # edges xs) (c, tr))
           = c\<lparr>tim2_running := False, tim3_running := False,
                exti4_enabled := False, exti9_5_enabled := False, pc := Stop_Reset\<rparr>
    \<and> snd (run hal (Main i0 # Main i1 # edges xs) (c, tr)) = tr
    \<and> write_index (fst (run hal (Main i0 # Main i1 # edges xs @ Main i2 # es) (c, tr))) = 0
    \<and> read_index (fst (run hal (Main i0 # Main i1 # edges xs @ Main i2 # es) (c, tr))) = 0
    \<and> event_buffer (fst (run hal (Main i0 # Main i1 # edges xs @ Main i2 # es) (c, tr)))
          = event_buffer c
    \<and> snd (run hal (Main i0 # Main i1 # edges xs @ Main i2 # es) (c, tr)) = tr"
proof -
  define c1 where "c1 = c\<lparr>tim2_running := False, tim3_running := False,
     exti4_enabled := False, exti9_5_enabled := False, pc := Stop_Reset\<rparr>"
  define c2 where "c2 = c1\<lparr>write_index := 0, read_index := 0, pc := Loop_Top\<rparr>"
  have off: "irqs_off c1" by (simp add: c1_def irqs_off_def)
  have two: "run hal [Main i0, Main i1] (c, tr) = (c1, tr)"
    using assms by (simp add: main_step_def c1_def)
  have a: "run hal (Main i0 # Main i1 # edges xs) (c, tr) = (c1, tr)"
    using run_append [of hal "[Main i0, Main i1]" "edges xs" "(c, tr)"] two
      disabled_edges [OF off] by simp
  have r: "run hal [Main i2] (c1, tr) = (c2, tr)"
    by (simp add: main_step_def c1_def c2_def)
  have st: "stopped c2" using off by (simp add: stopped_def c2_def c1_def irqs_off_def)
  have "run hal (Main i0 # Main i1 # edges xs @ Main i2 # es) (c, tr)
      = run hal es (run hal [Main i2] (run hal (Main i0 # Main i1 # edges xs) (c, tr)))"
    using run_append [of hal "Main i0 # Main i1 # edges xs" "Main i2 # es" "(c, tr)"]
      run_append [of hal "[Main i2]" es]
    by simp
  then have b: "run hal (Main i0 # Main i1 # edges xs @ Main i2 # es) (c, tr)
      = run hal es (c2, tr)"
    by (simp only: a r)
  have "event_buffer c2 = event_buffer c" by (simp add: c2_def c1_def)
  then show ?thesis
    using stopped_run [OF st, of hal es tr]
    unfolding a b by (simp add: stopped_def c1_def)
qed

theorem stop_transition_witness:
  "pc pending_state = Stop_Check
   \<and> occupancy pending_state = 2
   \<and> 2 ^ 29 \<le> get_32bit_timer (stop_reads late_main)
   \<and> write_index (fst (run stm32_hal
        (Main late_main # Main late_main # edges [(EXTI4_IRQn, sample_edge 3)]
           @ Main late_main # [Edge EXTI9_5_IRQn (sample_edge 4), Main sample_main])
        (pending_state, []))) = 0
   \<and> read_index (fst (run stm32_hal
        (Main late_main # Main late_main # edges [(EXTI4_IRQn, sample_edge 3)]
           @ Main late_main # [Edge EXTI9_5_IRQn (sample_edge 4), Main sample_main])
        (pending_state, []))) = 0
   \<and> snd (run stm32_hal
        (Main late_main # Main late_main # edges [(EXTI4_IRQn, sample_edge 3)]
           @ Main late_main # [Edge EXTI9_5_IRQn (sample_edge 4), Main sample_main])
        (pending_state, [])) = []"
proof -
  have h1: "pc pending_state = Stop_Check"
    unfolding pending_state_def by code_simp
  have o: "occupancy pending_state = 2"
    unfolding pending_state_def by code_simp
  have h2: "2 ^ 29 \<le> get_32bit_timer (stop_reads late_main)"
    by (simp add: late_main_def get_32bit_timer_def reads_at_def tim3_at_def tim2_at_def
        compose_tick_def)
  show ?thesis
    using h1 o h2
      stop_transition [OF h1 h2, where hal = stm32_hal and ?i1.0 = late_main
        and xs = "[(EXTI4_IRQn, sample_edge 3)]" and ?i2.0 = late_main
        and es = "[Edge EXTI9_5_IRQn (sample_edge 4), Main sample_main]" and tr = "[]"]
    by simp
qed

text \<open>
  C10. When the check of line 200 reads a tick of at least \<open>2^29\<close> while events are
  pending, the three statements of the stop transition leave the buffer empty with
  both cursors 0, and in everything that follows no word is taken out of the buffer
  and no packet is handed to the transport: the pending events are discarded.
\<close>

theorem stop_discards_pending:
  assumes "pc c = Stop_Check" and "2 ^ 29 \<le> get_32bit_timer (stop_reads i0)"
    and "0 < occupancy c"
  shows "contents c \<noteq> []
    \<and> contents (fst (run hal (Main i0 # Main i1 # Main i2 # es) (c, tr))) = []
    \<and> occupancy (fst (run hal (Main i0 # Main i1 # Main i2 # es) (c, tr))) = 0
    \<and> popped (snd (run hal (Main i0 # Main i1 # Main i2 # es) (c, tr))) = popped tr
    \<and> sent_packets (snd (run hal (Main i0 # Main i1 # Main i2 # es) (c, tr)))
         = sent_packets tr"
proof -
  define c2 where "c2 = c\<lparr>tim2_running := False, tim3_running := False,
     exti4_enabled := False, exti9_5_enabled := False,
     write_index := 0, read_index := 0, pc := Loop_Top\<rparr>"
  have three: "run hal [Main i0, Main i1, Main i2] (c, tr) = (c2, tr)"
    using assms(1,2) by (simp add: main_step_def c2_def)
  have st: "stopped c2" by (simp add: stopped_def c2_def irqs_off_def)
  have "run hal (Main i0 # Main i1 # Main i2 # es) (c, tr) = run hal es (c2, tr)"
    using run_append [of hal "[Main i0, Main i1, Main i2]" es "(c, tr)"] three by simp
  moreover have "contents c \<noteq> []"
    using assms(3) length_contents [of c] by auto
  moreover have "occupancy c' = 0 \<and> contents c' = []" if "stopped c'" for c'
    using that by (simp add: stopped_def occupancy_def contents_def)
  ultimately show ?thesis
    using stopped_run [OF st, of hal es tr] by simp
qed

theorem stop_discards_pending_witness:
  "pc pending_state = Stop_Check
   \<and> 2 ^ 29 \<le> get_32bit_timer (stop_reads late_main)
   \<and> 0 < occupancy pending_state
   \<and> contents pending_state \<noteq> []
   \<and> contents (fst (run stm32_hal
        (Main late_main # Main late_main # Main late_main # [Main sample_main, Main sample_main])
        (pending_state, []))) = []
   \<and> sent_packets (snd (run stm32_hal
        (Main late_main # Main late_main # Main late_main # [Main sample_main, Main sample_main])
        (pending_state, []))) = []"
proof -
  have h1: "pc pending_state = Stop_Check"
    unfolding pending_state_def by code_simp
  have h3: "0 < occupancy pending_state"
    unfolding pending_state_def by code_simp
  have h2: "2 ^ 29 \<le> get_32bit_timer (stop_reads late_main)"
    by (simp add: late_main_def get_32bit_timer_def reads_at_def tim3_at_def tim2_at_def
        compose_tick_def)
  show ?thesis
    using h1 h2 h3
      stop_discards_pending [OF h1 h2 h3, where hal = stm32_hal and ?i1.0 = late_main
        and ?i2.0 = late_main and es = "[Main sample_main, Main sample_main]" and tr = "[]"]
    by simp
qed

subsection \<open>Chunking\<close>

lemma run_edges_pc: "pc (fst (run hal (map (Edge n) inps) (c, tr))) = pc c"
proof (induction inps arbitrary: c tr)
  case Nil
  then show ?case by simp
next
  case (Cons inp inps)
  obtain c' acts where s: "step hal (Edge n inp) c = (c', acts)"
    by (cases "step hal (Edge n inp) c")
  show ?case
    using Cons [of c' "tr @ acts"] s edge_step_local(1) [OF s] by simp
qed

lemma idle_pass:
  assumes "pc c = Loop_Top"
    and "occupancy c = 0
      \<or> (occupancy c < 16 \<and> hal_tick t - last_usb_send_time c < USB_SEND_INTERVAL_MS)"
    and "get_32bit_timer (stop_reads k) < 2 ^ 29"
  shows "run hal [Main t, Main k] (c, tr) = (c, tr)"
proof -
  have "main_step hal t c = (c\<lparr>pc := Stop_Check\<rparr>, [])"
    by (rule loop_top_idle [OF assms(1,2)])
  moreover have "main_step hal k (c\<lparr>pc := Stop_Check\<rparr>) = (c\<lparr>pc := Loop_Top\<rparr>, [])"
    using assms(3) by (simp add: main_step_def not_le)
  moreover have "c\<lparr>pc := Loop_Top\<rparr> = c"
    using assms(1) by (cases c) simp
  ultimately show ?thesis by simp
qed

text \<open>
  C6. With 40 events pending, no further pushes, the transport accepting and the
  timer below \<open>2^29\<close>: the first pass of the loop body takes out the 16 oldest events
  and sends them as one packet of 64 bytes; the second pass does the same with the
  next 16, leaving 8; a pass that comes before \<open>USB_SEND_INTERVAL_MS\<close> has elapsed
  since the last send changes nothing; a pass that comes after it takes out and sends
  the remaining 8 (32 bytes). In general a pass that fires with \<open>n > 0\<close> events
  pending takes out exactly \<open>min 16 n\<close> events, the oldest ones in order, and sends
  them in one packet.
\<close>

theorem chunked_drain:
  fixes c :: config and hal :: hal_consts
    and t1 t2 t3 t4 s1 s2 s3 k1 k2 k3 k4 :: main_input
    and d1 d2 d3 :: "main_input list"
  defines "q \<equiv> contents c"
  assumes "pc c = Loop_Top" and "occupancy c = 40"
    and "length d1 = 32" and "length d2 = 32" and "length d3 = 16"
    and "tx_status s1 \<noteq> USBD_BUSY hal" and "tx_status s2 \<noteq> USBD_BUSY hal"
    and "tx_status s3 \<noteq> USBD_BUSY hal"
    and "get_32bit_timer (stop_reads k1) < 2 ^ 29"
    and "get_32bit_timer (stop_reads k2) < 2 ^ 29"
    and "get_32bit_timer (stop_reads k3) < 2 ^ 29"
    and "get_32bit_timer (stop_reads k4) < 2 ^ 29"
    and "hal_tick t3 - hal_tick t2 < USB_SEND_INTERVAL_MS"
    and "USB_SEND_INTERVAL_MS \<le> hal_tick t4 - hal_tick t2"
  defines "r1 \<equiv> run hal (iteration t1 d1 s1 k1) (c, [])"
  defines "r2 \<equiv> run hal (iteration t2 d2 s2 k2) (fst r1, [])"
  defines "r3 \<equiv> run hal [Main t3, Main k3] (fst r2, [])"
  defines "r4 \<equiv> run hal (iteration t4 d3 s3 k4) (fst r3, [])"
  shows "snd r1 = map Popped (take 16 q) @ [Sent (serialize (take 16 q)) (tx_status s1)]
    \<and> length (serialize (take 16 q)) = 64
    \<and> pc (fst r1) = Loop_Top \<and> contents (fst r1) = drop 16 q
    \<and> snd r2 = map Popped (take 16 (drop 16 q))
                 @ [Sent (serialize (take 16 (drop 16 q))) (tx_status s2)]
    \<and> length (serialize (take 16 (drop 16 q))) = 64
    \<and> pc (fst r2) = Loop_Top \<and> contents (fst r2) = drop 32 q \<and> occupancy (fst r2) = 8
    \<and> r3 = (fst r2, [])
    \<and> snd r4 = map Popped (drop 32 q) @ [Sent (serialize (drop 32 q)) (tx_status s3)]
    \<and> length (serialize (drop 32 q)) = 32
    \<and> occupancy (fst r4) = 0
    \<and> (\<forall>c' t d s k.
          pc c' = Loop_Top \<and> 0 < occupancy c'
          \<and> (16 \<le> occupancy c' \<or> USB_SEND_INTERVAL_MS \<le> hal_tick t - last_usb_send_time c')
          \<and> length d = 2 * min 16 (occupancy c')
          \<and> tx_status s \<noteq> USBD_BUSY hal \<and> get_32bit_timer (stop_reads k) < 2 ^ 29
          \<longrightarrow> popped (snd (run hal (iteration t d s k) (c', [])))
                = take (min 16 (occupancy c')) (contents c')
              \<and> sent_packets (snd (run hal (iteration t d s k) (c', [])))
                = [serialize (take (min 16 (occupancy c')) (contents c'))]
              \<and> occupancy (fst (run hal (iteration t d s k) (c', [])))
                = occupancy c' - min 16 (occupancy c'))"
proof -
  have lq: "length q = 40" using assms(3) by (simp add: q_def length_contents)
  \<comment> \<open>first pass\<close>
  define c1 where "c1 = c\<lparr>read_index := read_index c + of_nat (min 16 (occupancy c)),
          last_usb_send_time := hal_tick t1, pc := Loop_Top\<rparr>"
  have r1: "r1 = (c1, map Popped (take 16 q) @ [Sent (serialize (take 16 q)) (tx_status s1)])"
    unfolding r1_def c1_def q_def
    using fire_iteration [where c = c and t = t1 and d = d1 and s = s1 and hal = hal
        and k = k1 and tr = "[]"] assms(2-) by simp
  have c1: "pc c1 = Loop_Top" "contents c1 = drop 16 q" "occupancy c1 = 24"
    "last_usb_send_time c1 = hal_tick t1"
    unfolding c1_def q_def
    using fire_iteration_state [where m = "min 16 (occupancy c)" and c = c
        and x = "hal_tick t1" and p = Loop_Top] assms(3)
    by simp_all
  \<comment> \<open>second pass\<close>
  define c2 where "c2 = c1\<lparr>read_index := read_index c1 + of_nat (min 16 (occupancy c1)),
          last_usb_send_time := hal_tick t2, pc := Loop_Top\<rparr>"
  have r2: "r2 = (c2, map Popped (take 16 (drop 16 q))
      @ [Sent (serialize (take 16 (drop 16 q))) (tx_status s2)])"
    unfolding r2_def c2_def r1
    using fire_iteration [where c = c1 and t = t2 and d = d2 and s = s2 and hal = hal
        and k = k2 and tr = "[]"] c1 assms(2-) by simp
  have c2: "pc c2 = Loop_Top" "contents c2 = drop 32 q" "occupancy c2 = 8"
    "last_usb_send_time c2 = hal_tick t2"
    unfolding c2_def
    using fire_iteration_state [where m = "min 16 (occupancy c1)" and c = c1
        and x = "hal_tick t2" and p = Loop_Top] c1
    by simp_all
  \<comment> \<open>a pass before the interval has elapsed\<close>
  have r3: "r3 = (c2, [])"
    unfolding r3_def r2
    using idle_pass [where c = c2 and t = t3 and k = k3 and hal = hal and tr = "[]"] c2 assms(2-) by simp
  \<comment> \<open>a pass after the interval has elapsed\<close>
  define c4 where "c4 = c2\<lparr>read_index := read_index c2 + of_nat (min 16 (occupancy c2)),
          last_usb_send_time := hal_tick t4, pc := Loop_Top\<rparr>"
  have r4: "r4 = (c4, map Popped (drop 32 q) @ [Sent (serialize (drop 32 q)) (tx_status s3)])"
    unfolding r4_def c4_def r3
    using fire_iteration [where c = c2 and t = t4 and d = d3 and s = s3 and hal = hal
        and k = k4 and tr = "[]"] c2 assms(2-) lq by simp
  have c4: "occupancy c4 = 0"
    unfolding c4_def
    using fire_iteration_state [where m = "min 16 (occupancy c2)" and c = c2
        and x = "hal_tick t4" and p = Loop_Top] c2
    by simp
  have gen: "popped (snd (run hal (iteration t d s k) (c', [])))
                = take (min 16 (occupancy c')) (contents c')
              \<and> sent_packets (snd (run hal (iteration t d s k) (c', [])))
                = [serialize (take (min 16 (occupancy c')) (contents c'))]
              \<and> occupancy (fst (run hal (iteration t d s k) (c', [])))
                = occupancy c' - min 16 (occupancy c')"
    if "pc c' = Loop_Top" "0 < occupancy c'"
      "16 \<le> occupancy c' \<or> USB_SEND_INTERVAL_MS \<le> hal_tick t - last_usb_send_time c'"
      "length d = 2 * min 16 (occupancy c')"
      "tx_status s \<noteq> USBD_BUSY hal" "get_32bit_timer (stop_reads k) < 2 ^ 29"
    for c' t d s k
  proof -
    have p: "popped (map Popped xs) = xs" for xs by (induction xs) simp_all
    have e: "sent_packets (map Popped xs) = []" for xs by (induction xs) simp_all
    show ?thesis
      unfolding fire_iteration [OF that, of "[]"]
      using fire_iteration_state(2) [where m = "min 16 (occupancy c')" and c = c'
        and x = "hal_tick t" and p = Loop_Top]
      by (simp add: popped_append sent_packets_append p e)
  qed
  show ?thesis
    unfolding r1 r2 r3 r4 using c1 c2 c4 lq gen
    by (simp add: length_serialize)
qed

lemma state40_facts: "pc state40 = Loop_Top" "occupancy state40 = 40"
proof -
  show "pc state40 = Loop_Top"
    unfolding state40_def exec_def using run_edges_pc [of stm32_hal EXTI4_IRQn _ boot "[]"]
    by (simp add: boot_def)
  have "\<forall>inp \<in> set (take 40 fill_inputs). channel_of_pin stm32_hal (GPIO_Pin inp) \<noteq> None"
    by (auto simp: fill_inputs_def sample_edge_def channel_of_pin_def stm32_hal_def
        dest!: in_set_takeD)
  moreover have "length (take 40 fill_inputs) = 40" by (simp add: fill_inputs_def)
  ultimately show "occupancy state40 = 40"
    using pushes_accepted [of "take 40 fill_inputs" stm32_hal]
    by (simp add: occupancy_def state40_def)
qed

theorem chunked_drain_witness:
  "pc state40 = Loop_Top \<and> occupancy state40 = 40
   \<and> length (serialize (take 16 (contents state40))) = 64
   \<and> occupancy (fst (run stm32_hal pass16 (fst (run stm32_hal pass16 (state40, [])), []))) = 8
   \<and> run stm32_hal [Main busy_main, Main sample_main]
        (fst (run stm32_hal pass16 (fst (run stm32_hal pass16 (state40, [])), [])), [])
      = (fst (run stm32_hal pass16 (fst (run stm32_hal pass16 (state40, [])), [])), [])
   \<and> occupancy (fst (run stm32_hal pass8
        (fst (run stm32_hal [Main busy_main, Main sample_main]
           (fst (run stm32_hal pass16 (fst (run stm32_hal pass16 (state40, [])), [])), [])),
         []))) = 0"
proof -
  have ok: "tx_status sample_main \<noteq> USBD_BUSY stm32_hal"
    by (simp add: sample_main_def stm32_hal_def)
  have tm: "get_32bit_timer (stop_reads sample_main) < 2 ^ 29"
    by (simp add: sample_main_def get_32bit_timer_def reads_at_def tim3_at_def tim2_at_def
        compose_tick_def)
  have early: "hal_tick busy_main - hal_tick sample_main < USB_SEND_INTERVAL_MS"
    by (simp add: busy_main_def sample_main_def USB_SEND_INTERVAL_MS_def)
  have late: "USB_SEND_INTERVAL_MS \<le> hal_tick later_main - hal_tick sample_main"
    by (simp add: later_main_def sample_main_def USB_SEND_INTERVAL_MS_def)
  have l32: "length (replicate 32 sample_main) = 32" and l16: "length (replicate 16 sample_main) = 16"
    by simp_all
  note w = chunked_drain [OF state40_facts l32 l32 l16 ok ok ok tm tm tm tm early late,
      where ?t1.0 = sample_main]
  show ?thesis
    unfolding pass16_def pass8_def using state40_facts w by blast
qed

end
